theory Spec2Isabelle
  imports Main "HOL-Library.Multiset"
begin

section \<open>The animated heap of sort.py\<close>

text \<open>
  The class \<^verbatim>\<open>AnimatedHeap\<close> keeps a Python list \<^verbatim>\<open>heap\<close> and a flag
  \<^verbatim>\<open>is_min\<close>. Every method that changes the list also draws it on the
  placeholder \<^verbatim>\<open>st_plot\<close> it is handed. The model passes both along
  explicitly: the object as a record, the placeholder as the list of charts
  drawn on it so far, oldest first.

  Three things can happen when a method is called. It returns, it raises, or it
  never comes back. They are kept apart in the result type
  \<open>(error + 'r) option\<close>: \<open>Some (Inr r)\<close> is a normal return of \<open>r\<close>,
  \<open>Some (Inl IndexError)\<close> is Python's exception for a list index out of range
  (or a \<^verbatim>\<open>pop\<close> from an empty list), and \<open>None\<close> is a loop that runs forever.
  The calls to \<^verbatim>\<open>time.sleep\<close> only pace the animation and are left out.
\<close>

subsection \<open>Data\<close>

datatype error = IndexError

record 'a AnimatedHeap =
  heap :: "'a list"
  is_min :: bool

text \<open>
  One call of \<^verbatim>\<open>st_plot.graphviz_chart(draw_heap_tree(heap, highlight_nodes))\<close>:
  the list as it is at that moment and the nodes drawn in red.
\<close>

type_synonym 'a chart = "'a list \<times> nat list"

type_synonym 'a world = "'a AnimatedHeap \<times> 'a chart list"

text \<open>\<^verbatim>\<open>__init__\<close>\<close>

definition init :: "bool \<Rightarrow> 'a AnimatedHeap" where
  "init m = \<lparr>heap = [], is_min = m\<rparr>"

subsection \<open>List accesses\<close>

text \<open>
  Every index the class computes is a non-negative Python integer (a length, a
  \<^verbatim>\<open>range\<close> element, \<^verbatim>\<open>2 * index + 1\<close>, \<^verbatim>\<open>2 * index + 2\<close>, or
  \<^verbatim>\<open>(index - 1) // 2\<close> under the guard \<^verbatim>\<open>index > 0\<close>), so indices are
  natural numbers and only the upper bound can fail.
\<close>

definition getitem :: "'a list \<Rightarrow> nat \<Rightarrow> error + 'a" where
  "getitem xs i = (if i < length xs then Inr (xs ! i) else Inl IndexError)"

definition setitem :: "'a list \<Rightarrow> nat \<Rightarrow> 'a \<Rightarrow> error + 'a list" where
  "setitem xs i v = (if i < length xs then Inr (xs[i := v]) else Inl IndexError)"

definition pop :: "'a list \<Rightarrow> error + ('a \<times> 'a list)" where
  "pop xs = (if xs = [] then Inl IndexError else Inr (last xs, butlast xs))"

subsection \<open>Methods\<close>

text \<open>\<^verbatim>\<open>_compare\<close>\<close>

definition compare :: "bool \<Rightarrow> 'a::linorder \<Rightarrow> 'a \<Rightarrow> bool" where
  "compare m a b = (if m then a < b else a > b)"

text \<open>
  The expression \<^verbatim>\<open>self._compare(self.heap[i], self.heap[j])\<close>: the two reads,
  left to right, then the comparison.
\<close>

definition compare_at :: "'a::linorder AnimatedHeap \<Rightarrow> nat \<Rightarrow> nat \<Rightarrow> error + bool" where
  "compare_at self i j =
     (case getitem (heap self) i of
        Inl e \<Rightarrow> Inl e
      | Inr a \<Rightarrow>
         (case getitem (heap self) j of
            Inl e \<Rightarrow> Inl e
          | Inr b \<Rightarrow> Inr (compare (is_min self) a b)))"

text \<open>
  \<^verbatim>\<open>swap_and_visualize\<close>: the right-hand side reads \<^verbatim>\<open>heap[j]\<close> then
  \<^verbatim>\<open>heap[i]\<close>, the left-hand side stores into \<^verbatim>\<open>heap[i]\<close> then
  \<^verbatim>\<open>heap[j]\<close>, and the result is drawn with both nodes highlighted.
\<close>

definition swap_and_visualize :: "nat \<Rightarrow> nat \<Rightarrow> 'a world \<Rightarrow> error + 'a world" where
  "swap_and_visualize i j w =
     (case w of (self, st_plot) \<Rightarrow>
        (case getitem (heap self) j of
           Inl e \<Rightarrow> Inl e
         | Inr vj \<Rightarrow>
            (case getitem (heap self) i of
               Inl e \<Rightarrow> Inl e
             | Inr vi \<Rightarrow>
                (case setitem (heap self) i vj of
                   Inl e \<Rightarrow> Inl e
                 | Inr h1 \<Rightarrow>
                    (case setitem h1 j vi of
                       Inl e \<Rightarrow> Inl e
                     | Inr h2 \<Rightarrow>
                        Inr (self\<lparr>heap := h2\<rparr>, st_plot @ [(h2, [i, j])]))))))"

text \<open>\<^verbatim>\<open>_heapify_up\<close>: the loop \<^verbatim>\<open>while index > 0\<close> with its \<^verbatim>\<open>break\<close>.\<close>

partial_function (option) heapify_up ::
  "nat \<Rightarrow> 'a::linorder world \<Rightarrow> (error + 'a world) option" where
  "heapify_up index w =
     (if index > 0 then
        (let parent = (index - 1) div 2 in
         case compare_at (fst w) index parent of
           Inl e \<Rightarrow> Some (Inl e)
         | Inr c \<Rightarrow>
            if c then
              (case swap_and_visualize index parent w of
                 Inl e \<Rightarrow> Some (Inl e)
               | Inr w' \<Rightarrow> heapify_up parent w')
            else Some (Inr w))
      else Some (Inr w))"

declare heapify_up.simps [code]

text \<open>
  \<^verbatim>\<open>_heapify_down\<close>: \<^verbatim>\<open>size\<close> (here \<open>sz\<close>) is read once, before the loop
  \<^verbatim>\<open>while True\<close>; the conjunctions short-circuit, so a child is read only
  after its index was compared with \<^verbatim>\<open>size\<close>.
\<close>

partial_function (option) heapify_down_loop ::
  "nat \<Rightarrow> nat \<Rightarrow> 'a::linorder world \<Rightarrow> (error + 'a world) option" where
  "heapify_down_loop sz index w =
     (let swap_idx = index;
          left = 2 * index + 1;
          right = 2 * index + 2
      in
      case (if left < sz then compare_at (fst w) left swap_idx else Inr False) of
        Inl e \<Rightarrow> Some (Inl e)
      | Inr c1 \<Rightarrow>
         (let swap_idx = (if c1 then left else swap_idx) in
          case (if right < sz then compare_at (fst w) right swap_idx else Inr False) of
            Inl e \<Rightarrow> Some (Inl e)
          | Inr c2 \<Rightarrow>
             (let swap_idx = (if c2 then right else swap_idx) in
              if swap_idx \<noteq> index then
                (case swap_and_visualize index swap_idx w of
                   Inl e \<Rightarrow> Some (Inl e)
                 | Inr w' \<Rightarrow> heapify_down_loop sz swap_idx w')
              else Some (Inr w))))"

declare heapify_down_loop.simps [code]

definition heapify_down :: "nat \<Rightarrow> 'a::linorder world \<Rightarrow> (error + 'a world) option" where
  "heapify_down index w = heapify_down_loop (length (heap (fst w))) index w"

text \<open>
  A \<^verbatim>\<open>for\<close> loop over a list of indices that was computed before the loop
  started; an exception or a body that does not return ends it.
\<close>

fun for_each ::
  "nat list \<Rightarrow> (nat \<Rightarrow> 'w \<Rightarrow> (error + 'w) option) \<Rightarrow> 'w \<Rightarrow> (error + 'w) option" where
  "for_each [] body w = Some (Inr w)"
| "for_each (k # ks) body w =
     (case body k w of
        None \<Rightarrow> None
      | Some (Inl e) \<Rightarrow> Some (Inl e)
      | Some (Inr w') \<Rightarrow> for_each ks body w')"

text \<open>
  \<^verbatim>\<open>build_heap\<close>: copy the input, draw it with nothing highlighted, then sift
  down from \<^verbatim>\<open>len // 2 - 1\<close> to \<^verbatim>\<open>0\<close>.
\<close>

definition build_heap :: "'a::linorder list \<Rightarrow> 'a world \<Rightarrow> (error + 'a world) option" where
  "build_heap arr w =
     (case w of (self, st_plot) \<Rightarrow>
        (let self = self\<lparr>heap := arr\<rparr>;
             st_plot = st_plot @ [(heap self, [])]
         in for_each (rev [0..<length (heap self) div 2]) heapify_down (self, st_plot)))"

text \<open>\<^verbatim>\<open>insert\<close>\<close>

definition insert_heap :: "'a::linorder \<Rightarrow> 'a world \<Rightarrow> (error + 'a world) option" where
  "insert_heap val w =
     (case w of (self, st_plot) \<Rightarrow>
        (let self = self\<lparr>heap := heap self @ [val]\<rparr>
         in heapify_up (length (heap self) - 1) (self, st_plot)))"

text \<open>
  \<^verbatim>\<open>delete_root\<close>: on an empty list it shows the warning
  \<^verbatim>\<open>"Heap is empty!"\<close> through \<^verbatim>\<open>st.warning\<close> (not through the
  placeholder) and returns Python's \<^verbatim>\<open>None\<close>; the model returns \<open>None\<close> as
  the value and leaves the world as it was. Otherwise the value returned is
  \<open>Some root\<close>.
\<close>

definition delete_root :: "'a::linorder world \<Rightarrow> (error + ('a option \<times> 'a world)) option" where
  "delete_root w =
     (case w of (self, st_plot) \<Rightarrow>
        if heap self = [] then Some (Inr (None, (self, st_plot)))
        else
          (case getitem (heap self) 0 of
             Inl e \<Rightarrow> Some (Inl e)
           | Inr root \<Rightarrow>
              (case pop (heap self) of
                 Inl e \<Rightarrow> Some (Inl e)
               | Inr (last_val, rest) \<Rightarrow>
                  (let self = self\<lparr>heap := rest\<rparr> in
                   if heap self \<noteq> [] then
                     (case setitem (heap self) 0 last_val of
                        Inl e \<Rightarrow> Some (Inl e)
                      | Inr h \<Rightarrow>
                         (case heapify_down 0 (self\<lparr>heap := h\<rparr>, st_plot) of
                            None \<Rightarrow> None
                          | Some (Inl e) \<Rightarrow> Some (Inl e)
                          | Some (Inr w') \<Rightarrow> Some (Inr (Some root, w'))))
                   else Some (Inr (Some root, (self, st_plot)))))))"

text \<open>\<^verbatim>\<open>get_heap\<close>\<close>

definition get_heap :: "'a world \<Rightarrow> 'a list" where
  "get_heap w = heap (fst w)"

subsection \<open>Callers\<close>

text \<open>
  The page calls one method per button press. A press is an \<open>operation\<close>;
  \<open>perform\<close> runs it and hands back what the method returned (\<^verbatim>\<open>build_heap\<close>
  and \<^verbatim>\<open>insert\<close> return Python's \<^verbatim>\<open>None\<close>), and \<open>run\<close> performs a
  sequence of presses on the same object, collecting the returned values.
\<close>

datatype 'a operation = Build "'a list" | Insert 'a | DeleteRoot

fun perform :: "'a::linorder operation \<Rightarrow> 'a world \<Rightarrow> (error + ('a option \<times> 'a world)) option" where
  "perform (Build arr) w =
     (case build_heap arr w of
        None \<Rightarrow> None
      | Some (Inl e) \<Rightarrow> Some (Inl e)
      | Some (Inr w') \<Rightarrow> Some (Inr (None, w')))"
| "perform (Insert val) w =
     (case insert_heap val w of
        None \<Rightarrow> None
      | Some (Inl e) \<Rightarrow> Some (Inl e)
      | Some (Inr w') \<Rightarrow> Some (Inr (None, w')))"
| "perform DeleteRoot w = delete_root w"

fun run :: "'a::linorder operation list \<Rightarrow> 'a world \<Rightarrow> (error + ('a option list \<times> 'a world)) option" where
  "run [] w = Some (Inr ([], w))"
| "run (x # xs) w =
     (case perform x w of
        None \<Rightarrow> None
      | Some (Inl e) \<Rightarrow> Some (Inl e)
      | Some (Inr (r, w')) \<Rightarrow>
         (case run xs w' of
            None \<Rightarrow> None
          | Some (Inl e) \<Rightarrow> Some (Inl e)
          | Some (Inr (rs, w'')) \<Rightarrow> Some (Inr (r # rs, w''))))"

section \<open>Properties\<close>

text \<open>
  The order a heap keeps between a parent and a child: \<open>\<le>\<close> for a min-heap,
  \<open>\<ge>\<close> for a max-heap. It is the negation of \<open>compare\<close> with the arguments
  exchanged.
\<close>

definition heap_le :: "bool \<Rightarrow> 'a::linorder \<Rightarrow> 'a \<Rightarrow> bool" where
  "heap_le m a b = (if m then a \<le> b else a \<ge> b)"

text \<open>
  Heap order of a list: every index \<open>i\<close> is in order with each of its children
  \<open>2 * i + 1\<close> and \<open>2 * i + 2\<close> that exists.
\<close>

definition heap_order :: "bool \<Rightarrow> 'a::linorder list \<Rightarrow> bool" where
  "heap_order m h =
     (\<forall>i \<in> set [0..<length h]. \<forall>c \<in> set [2 * i + 1, 2 * i + 2].
        c < length h \<longrightarrow> heap_le m (h ! i) (h ! c))"

text \<open>
  The bookkeeping of values over a sequence of operations with their returned
  values: \<open>tracks es M N\<close> holds when, starting with the multiset \<open>M\<close>, a
  build replaces the content by its input, an insert adds its value, a delete
  that returned \<open>x\<close> found \<open>x\<close> present and removed one copy of it, a delete
  that returned nothing found nothing to remove, and the content at the end is
  \<open>N\<close>.
\<close>

fun tracks :: "('a operation \<times> 'a option) list \<Rightarrow> 'a multiset \<Rightarrow> 'a multiset \<Rightarrow> bool" where
  "tracks [] M N = (N = M)"
| "tracks ((Build arr, r) # es) M N = tracks es (mset arr) N"
| "tracks ((Insert val, r) # es) M N = tracks es (add_mset val M) N"
| "tracks ((DeleteRoot, Some x) # es) M N = (x \<in># M \<and> tracks es (M - {#x#}) N)"
| "tracks ((DeleteRoot, None) # es) M N = (M = {#} \<and> tracks es M N)"

section \<open>Notions used in the proofs\<close>

text \<open>
  The list after the exchange of two positions, and the index that one pass of
  the body of \<^verbatim>\<open>_heapify_down\<close> selects when all its reads are in range.
\<close>

definition swap_list :: "'a list \<Rightarrow> nat \<Rightarrow> nat \<Rightarrow> 'a list" where
  "swap_list h i j = h[i := h ! j, j := h ! i]"

definition swap_idx_of :: "bool \<Rightarrow> 'a::linorder list \<Rightarrow> nat \<Rightarrow> nat" where
  "swap_idx_of m h i =
     (let s1 = (if 2 * i + 1 < length h \<and> compare m (h ! (2 * i + 1)) (h ! i) then 2 * i + 1 else i)
      in if 2 * i + 2 < length h \<and> compare m (h ! (2 * i + 2)) (h ! s1) then 2 * i + 2 else s1)"

text \<open>
  The tree of indices, and heap order restricted to the parents from \<open>k\<close> on.
  While a value sinks from position \<open>i\<close>, all edges but those below \<open>i\<close> are
  in order and the parent of \<open>i\<close> is in order with the children of \<open>i\<close>
  (\<open>down_inv\<close>); while a value rises from position \<open>i\<close>, all edges but the
  one above \<open>i\<close> are in order and the same holds for the parent of \<open>i\<close>
  (\<open>up_inv\<close>).
\<close>

definition is_child :: "nat \<Rightarrow> nat \<Rightarrow> bool" where
  "is_child c p \<longleftrightarrow> c = 2 * p + 1 \<or> c = 2 * p + 2"

definition heap_from :: "bool \<Rightarrow> nat \<Rightarrow> 'a::linorder list \<Rightarrow> bool" where
  "heap_from m k h \<longleftrightarrow>
     (\<forall>p c. k \<le> p \<and> is_child c p \<and> c < length h \<longrightarrow> heap_le m (h ! p) (h ! c))"

definition down_inv :: "bool \<Rightarrow> nat \<Rightarrow> 'a::linorder list \<Rightarrow> nat \<Rightarrow> bool" where
  "down_inv m k h i \<longleftrightarrow>
     (\<forall>p c. k \<le> p \<and> p \<noteq> i \<and> is_child c p \<and> c < length h \<longrightarrow> heap_le m (h ! p) (h ! c)) \<and>
     (\<forall>g c. k \<le> g \<and> is_child i g \<and> is_child c i \<and> c < length h \<longrightarrow> heap_le m (h ! g) (h ! c))"

definition up_inv :: "bool \<Rightarrow> 'a::linorder list \<Rightarrow> nat \<Rightarrow> bool" where
  "up_inv m h i \<longleftrightarrow>
     (\<forall>p c. c \<noteq> i \<and> is_child c p \<and> c < length h \<longrightarrow> heap_le m (h ! p) (h ! c)) \<and>
     (\<forall>g c. is_child i g \<and> is_child c i \<and> c < length h \<longrightarrow> heap_le m (h ! g) (h ! c))"

section \<open>The loops and the methods\<close>

subsection \<open>Unfolding and loop rules\<close>

text \<open>
  With the reads in range, one pass of either loop is an exchange followed by
  the loop again, or a return. The two rules are those of a loop with an
  invariant and a bound: sift-down by induction on the distance of the index
  to the length, sift-up on the index.
\<close>

lemma length_swap_list [simp]: "length (swap_list h i j) = length h"
  by (simp add: swap_list_def)

lemma mset_swap_list [simp]: "i < length h \<Longrightarrow> j < length h \<Longrightarrow> mset (swap_list h i j) = mset h"
  by (simp add: swap_list_def mset_swap)

lemma swap_and_visualize_ok:
  "i < length (heap self) \<Longrightarrow> j < length (heap self) \<Longrightarrow>
   swap_and_visualize i j (self, p) =
     Inr (self\<lparr>heap := swap_list (heap self) i j\<rparr>, p @ [(swap_list (heap self) i j, [i, j])])"
  by (simp add: swap_and_visualize_def getitem_def setitem_def swap_list_def)

lemma swap_idx_of_cases:
  "swap_idx_of m h i = i \<or> swap_idx_of m h i = 2 * i + 1 \<or> swap_idx_of m h i = 2 * i + 2"
  by (simp add: swap_idx_of_def Let_def)

lemma swap_idx_of_bounds:
  "swap_idx_of m h i \<noteq> i \<Longrightarrow> i < swap_idx_of m h i \<and> swap_idx_of m h i < length h"
  by (auto simp add: swap_idx_of_def Let_def split: if_splits)

lemma heapify_down_loop_unfold:
  "heapify_down_loop (length (heap self)) i (self, p) =
     (let j = swap_idx_of (is_min self) (heap self) i in
      if j \<noteq> i then
        heapify_down_loop (length (heap self)) j
          (self\<lparr>heap := swap_list (heap self) i j\<rparr>, p @ [(swap_list (heap self) i j, [i, j])])
      else Some (Inr (self, p)))"
  apply (subst heapify_down_loop.simps)
  apply (auto simp add: Let_def swap_idx_of_def compare_at_def getitem_def swap_and_visualize_ok)
  done

lemma heapify_down_loop_rule:
  assumes "I i (heap self) p" and "is_min self = m"
    and step: "\<And>i h p. I i h p \<Longrightarrow> swap_idx_of m h i \<noteq> i \<Longrightarrow>
            I (swap_idx_of m h i) (swap_list h i (swap_idx_of m h i))
              (p @ [(swap_list h i (swap_idx_of m h i), [i, swap_idx_of m h i])])"
    and final: "\<And>i h p. I i h p \<Longrightarrow> swap_idx_of m h i = i \<Longrightarrow> Q h p"
  shows "\<exists>h' p'. heapify_down_loop (length (heap self)) i (self, p) = Some (Inr (self\<lparr>heap := h'\<rparr>, p'))
            \<and> length h' = length (heap self) \<and> Q h' p'"
  using assms(1,2)
proof (induction "length (heap self) - i" arbitrary: i self p rule: less_induct)
  case less
  let ?j = "swap_idx_of m (heap self) i"
  have jm: "swap_idx_of (is_min self) (heap self) i = ?j" using less.prems(2) by simp
  show ?case
  proof (cases "?j = i")
    case True
    have "Q (heap self) p" using final[OF less.prems(1) True] .
    moreover have "heapify_down_loop (length (heap self)) i (self, p) = Some (Inr (self, p))"
      using True by (subst heapify_down_loop_unfold) (simp add: Let_def jm)
    ultimately show ?thesis
      by (intro exI[of _ "heap self"] exI[of _ p]) simp
  next
    case False
    let ?self' = "self\<lparr>heap := swap_list (heap self) i ?j\<rparr>"
    let ?p' = "p @ [(swap_list (heap self) i ?j, [i, ?j])]"
    have b: "i < ?j" "?j < length (heap self)" using swap_idx_of_bounds[OF False] by auto
    have I': "I ?j (heap ?self') ?p'" using step[OF less.prems(1) False] by simp
    have m: "length (heap ?self') - ?j < length (heap self) - i" using b by simp
    have m': "is_min ?self' = m" using less.prems(2) by simp
    obtain h' p' where r: "heapify_down_loop (length (heap ?self')) ?j (?self', ?p') = Some (Inr (?self'\<lparr>heap := h'\<rparr>, p'))"
        "length h' = length (heap ?self')" "Q h' p'"
      using less.hyps[OF m I' m'] by blast
    have "heapify_down_loop (length (heap self)) i (self, p) = Some (Inr (self\<lparr>heap := h'\<rparr>, p'))"
      using False r(1) by (subst heapify_down_loop_unfold) (simp add: Let_def jm)
    then show ?thesis using r(2,3) by (intro exI[of _ h'] exI[of _ p']) simp
  qed
qed

lemma heapify_up_unfold:
  "i < length (heap self) \<Longrightarrow>
   heapify_up i (self, p) =
     (if 0 < i \<and> compare (is_min self) (heap self ! i) (heap self ! ((i - 1) div 2)) then
        heapify_up ((i - 1) div 2)
          (self\<lparr>heap := swap_list (heap self) i ((i - 1) div 2)\<rparr>,
           p @ [(swap_list (heap self) i ((i - 1) div 2), [i, (i - 1) div 2])])
      else Some (Inr (self, p)))"
  apply (subst heapify_up.simps)
  apply (auto simp add: Let_def compare_at_def getitem_def swap_and_visualize_ok)
  done

lemma heapify_up_rule:
  assumes "I i (heap self) p" and "is_min self = m" and "i < length (heap self)"
    and step: "\<And>i h p. I i h p \<Longrightarrow> i < length h \<Longrightarrow> 0 < i \<Longrightarrow> compare m (h ! i) (h ! ((i - 1) div 2)) \<Longrightarrow>
            I ((i - 1) div 2) (swap_list h i ((i - 1) div 2))
              (p @ [(swap_list h i ((i - 1) div 2), [i, (i - 1) div 2])])"
    and final: "\<And>i h p. I i h p \<Longrightarrow> i < length h \<Longrightarrow> \<not> (0 < i \<and> compare m (h ! i) (h ! ((i - 1) div 2))) \<Longrightarrow> Q h p"
  shows "\<exists>h' p'. heapify_up i (self, p) = Some (Inr (self\<lparr>heap := h'\<rparr>, p'))
            \<and> length h' = length (heap self) \<and> Q h' p'"
  using assms(1,2,3)
proof (induction i arbitrary: self p rule: less_induct)
  case (less i)
  let ?h = "heap self"
  let ?q = "(i - 1) div 2"
  show ?case
  proof (cases "0 < i \<and> compare m (?h ! i) (?h ! ?q)")
    case False
    have "Q ?h p" using final[OF less.prems(1) less.prems(3) False] .
    moreover have "heapify_up i (self, p) = Some (Inr (self, p))"
      using False less.prems(2) by (subst heapify_up_unfold[OF less.prems(3)]) auto
    ultimately show ?thesis
      by (intro exI[of _ ?h] exI[of _ p]) simp
  next
    case True
    let ?self' = "self\<lparr>heap := swap_list ?h i ?q\<rparr>"
    let ?p' = "p @ [(swap_list ?h i ?q, [i, ?q])]"
    have q: "?q < i" using True by arith
    have I': "I ?q (heap ?self') ?p'"
      using step[OF less.prems(1) less.prems(3)] True by simp
    have m': "is_min ?self' = m" using less.prems(2) by simp
    have l': "?q < length (heap ?self')" using q less.prems(3) by simp
    obtain h' p' where r: "heapify_up ?q (?self', ?p') = Some (Inr (?self'\<lparr>heap := h'\<rparr>, p'))"
        "length h' = length (heap ?self')" "Q h' p'"
      using less.IH[OF q I' m' l'] by blast
    have "heapify_up i (self, p) = Some (Inr (self\<lparr>heap := h'\<rparr>, p'))"
      using True r(1) less.prems(2) by (subst heapify_up_unfold[OF less.prems(3)]) simp
    then show ?thesis using r(2,3) by (intro exI[of _ h'] exI[of _ p']) simp
  qed
qed

subsection \<open>Heap order and the tree of indices\<close>

lemma compare_iff: "compare m a b \<longleftrightarrow> \<not> heap_le m b a"
  by (auto simp: compare_def heap_le_def)

lemma heap_le_refl [simp]: "heap_le m a a"
  by (simp add: heap_le_def)

lemma heap_le_trans: "heap_le m a b \<Longrightarrow> heap_le m b c \<Longrightarrow> heap_le m a c"
  by (auto simp: heap_le_def split: if_splits)

lemma heap_le_total: "heap_le m a b \<or> heap_le m b a"
  by (auto simp: heap_le_def)

lemma heap_order_iff: "heap_order m h \<longleftrightarrow> heap_from m 0 h"
proof
  assume H: "heap_order m h"
  show "heap_from m 0 h"
    unfolding heap_from_def
  proof (intro allI impI)
    fix p c assume a: "0 \<le> p \<and> is_child c p \<and> c < length h"
    then have "p \<in> set [0..<length h]" "c \<in> set [2 * p + 1, 2 * p + 2]" "c < length h"
      by (auto simp: is_child_def)
    then show "heap_le m (h ! p) (h ! c)"
      using H unfolding heap_order_def by blast
  qed
next
  assume H: "heap_from m 0 h"
  show "heap_order m h"
    unfolding heap_order_def
  proof (intro ballI impI)
    fix i c assume "i \<in> set [0..<length h]" "c \<in> set [2 * i + 1, 2 * i + 2]" "c < length h"
    then have "0 \<le> i \<and> is_child c i \<and> c < length h" by (auto simp: is_child_def)
    then show "heap_le m (h ! i) (h ! c)" using H unfolding heap_from_def by blast
  qed
qed

lemma down_inv_final:
  assumes "down_inv m k h i" "swap_idx_of m h i = i"
  shows "heap_from m k h"
  unfolding heap_from_def
proof (intro allI impI)
  fix p c assume a: "k \<le> p \<and> is_child c p \<and> c < length h"
  show "heap_le m (h ! p) (h ! c)"
  proof (cases "p = i")
    case False
    then show ?thesis using assms(1) a unfolding down_inv_def by blast
  next
    case True
    have "\<not> compare m (h ! c) (h ! i)"
      using assms(2) a True
      by (auto simp: swap_idx_of_def Let_def is_child_def split: if_splits)
    then show ?thesis using True by (simp add: compare_iff)
  qed
qed

lemma nth_swap_list:
  "i < length h \<Longrightarrow> j < length h \<Longrightarrow>
   swap_list h i j ! k = (if k = j then h ! i else if k = i then h ! j else h ! k)"
  by (auto simp: swap_list_def nth_list_update)

lemma swap_idx_of_left:
  assumes "swap_idx_of m h i = 2 * i + 1"
  shows "2 * i + 1 < length h" "compare m (h ! (2 * i + 1)) (h ! i)"
        "2 * i + 2 < length h \<Longrightarrow> heap_le m (h ! (2 * i + 1)) (h ! (2 * i + 2))"
  using assms by (auto simp: swap_idx_of_def Let_def compare_def heap_le_def split: if_splits)

lemma swap_idx_of_right:
  assumes "swap_idx_of m h i = 2 * i + 2"
  shows "2 * i + 2 < length h" "compare m (h ! (2 * i + 2)) (h ! i)"
        "heap_le m (h ! (2 * i + 2)) (h ! (2 * i + 1))"
  using assms by (auto simp: swap_idx_of_def Let_def compare_def heap_le_def split: if_splits)

lemma swap_idx_of_child:
  assumes "swap_idx_of m h i \<noteq> i" "is_child c i" "c < length h"
  shows "heap_le m (h ! swap_idx_of m h i) (h ! c)"
  using assms swap_idx_of_cases[of m h i] swap_idx_of_left[of m h i] swap_idx_of_right[of m h i]
  by (auto simp: is_child_def)

lemma swap_idx_of_compare:
  assumes "swap_idx_of m h i \<noteq> i"
  shows "heap_le m (h ! swap_idx_of m h i) (h ! i)" "is_child (swap_idx_of m h i) i"
  using assms swap_idx_of_cases[of m h i] swap_idx_of_left[of m h i] swap_idx_of_right[of m h i]
  by (auto simp: is_child_def compare_def heap_le_def split: if_splits)

lemma is_child_parent_unique: "is_child c p \<Longrightarrow> is_child c q \<Longrightarrow> p = q"
  by (auto simp: is_child_def; arith)

lemma is_child_less: "is_child c p \<Longrightarrow> p < c"
  by (auto simp: is_child_def)

lemma down_inv_step:
  assumes inv: "down_inv m k h i" and ne: "swap_idx_of m h i \<noteq> i"
  shows "down_inv m k (swap_list h i (swap_idx_of m h i)) (swap_idx_of m h i)"
proof -
  let ?j = "swap_idx_of m h i"
  let ?h' = "swap_list h i ?j"
  have b: "i < ?j" "?j < length h" using swap_idx_of_bounds[OF ne] by auto
  then have il: "i < length h" by simp
  have ch: "is_child ?j i" and ji: "heap_le m (h ! ?j) (h ! i)" using swap_idx_of_compare[OF ne] by auto
  have nth: "\<And>x. ?h' ! x = (if x = ?j then h ! i else if x = i then h ! ?j else h ! x)"
    using nth_swap_list[OF il b(2)] by simp
  from inv have P1: "\<And>p c. k \<le> p \<Longrightarrow> p \<noteq> i \<Longrightarrow> is_child c p \<Longrightarrow> c < length h \<Longrightarrow> heap_le m (h ! p) (h ! c)"
    and P2: "\<And>g c. k \<le> g \<Longrightarrow> is_child i g \<Longrightarrow> is_child c i \<Longrightarrow> c < length h \<Longrightarrow> heap_le m (h ! g) (h ! c)"
    unfolding down_inv_def by blast+
  show ?thesis
    unfolding down_inv_def
  proof (intro conjI allI impI)
    fix p c assume a: "k \<le> p \<and> p \<noteq> ?j \<and> is_child c p \<and> c < length ?h'"
    then have kp: "k \<le> p" and pj: "p \<noteq> ?j" and cp: "is_child c p" and cl: "c < length h" by auto
    show "heap_le m (?h' ! p) (?h' ! c)"
    proof (cases "p = i")
      case True
      show ?thesis
      proof (cases "c = ?j")
        case True
        with \<open>p = i\<close> ji show ?thesis using b by (simp add: nth)
      next
        case False
        have "c \<noteq> i" using cp \<open>p = i\<close> is_child_less by blast
        moreover have "heap_le m (h ! ?j) (h ! c)"
          using swap_idx_of_child[OF ne _ cl] cp \<open>p = i\<close> by simp
        ultimately show ?thesis using \<open>p = i\<close> False b by (simp add: nth)
      qed
    next
      case False
      have cj: "c \<noteq> ?j" using is_child_parent_unique[OF ch] cp False by blast
      show ?thesis
      proof (cases "c = i")
        case True
        have "heap_le m (h ! p) (h ! ?j)" using P2[OF kp _ ch b(2)] cp True by simp
        then show ?thesis using True False pj b by (simp add: nth)
      next
        case cf: False
        have "heap_le m (h ! p) (h ! c)" using P1[OF kp False cp cl] .
        then show ?thesis using cf cj False pj by (simp add: nth)
      qed
    qed
  next
    fix g c assume a: "k \<le> g \<and> is_child ?j g \<and> is_child c ?j \<and> c < length ?h'"
    then have gi: "g = i" using is_child_parent_unique[OF ch] by blast
    from a have cj: "is_child c ?j" and cl: "c < length h" by auto
    have "?j < c" using is_child_less[OF cj] .
    then have c: "c \<noteq> ?j" "c \<noteq> i" using b by auto
    have "k \<le> ?j" using a gi b by simp
    then have "heap_le m (h ! ?j) (h ! c)" using P1[OF _ _ cj cl] b by simp
    then show "heap_le m (?h' ! g) (?h' ! c)" using gi c b by (simp add: nth)
  qed
qed

lemma is_child_parent: "0 < i \<Longrightarrow> is_child i ((i - 1) div 2)"
  unfolding is_child_def by arith

lemma up_inv_final:
  assumes inv: "up_inv m h i" and stop: "\<not> (0 < i \<and> compare m (h ! i) (h ! ((i - 1) div 2)))"
  shows "heap_from m 0 h"
  unfolding heap_from_def
proof (intro allI impI)
  fix p c assume a: "0 \<le> p \<and> is_child c p \<and> c < length h"
  show "heap_le m (h ! p) (h ! c)"
  proof (cases "c = i")
    case False
    then show ?thesis using inv a unfolding up_inv_def by blast
  next
    case True
    then have "0 < i" using a is_child_less by fastforce
    then have "p = (i - 1) div 2" using is_child_parent_unique[OF is_child_parent] a True by blast
    then show ?thesis using stop \<open>0 < i\<close> True by (simp add: compare_iff)
  qed
qed

lemma up_inv_step_child:
  assumes inv: "up_inv m h i" and il: "i < length h" and ch: "is_child i q"
    and cmp: "compare m (h ! i) (h ! q)"
  shows "up_inv m (swap_list h i q) q"
proof -
  let ?h' = "swap_list h i q"
  have qi: "q < i" using is_child_less[OF ch] .
  then have ql: "q < length h" using il by simp
  have iq: "heap_le m (h ! i) (h ! q)" using cmp heap_le_total[of m "h ! i" "h ! q"] by (auto simp: compare_iff)
  have nth: "\<And>x. ?h' ! x = (if x = q then h ! i else if x = i then h ! q else h ! x)"
    using nth_swap_list[OF il ql] by simp
  from inv have P1: "\<And>p c. c \<noteq> i \<Longrightarrow> is_child c p \<Longrightarrow> c < length h \<Longrightarrow> heap_le m (h ! p) (h ! c)"
    and P2: "\<And>g c. is_child i g \<Longrightarrow> is_child c i \<Longrightarrow> c < length h \<Longrightarrow> heap_le m (h ! g) (h ! c)"
    unfolding up_inv_def by blast+
  show ?thesis
    unfolding up_inv_def
  proof (intro conjI allI impI)
    fix p c assume a: "c \<noteq> q \<and> is_child c p \<and> c < length ?h'"
    then have cq: "c \<noteq> q" and cp: "is_child c p" and cl: "c < length h" by auto
    have pc: "p < c" using is_child_less[OF cp] .
    show "heap_le m (?h' ! p) (?h' ! c)"
    proof (cases "c = i")
      case True
      then have "p = q" using is_child_parent_unique[OF ch] cp by blast
      then show ?thesis using True iq qi by (simp add: nth)
    next
      case ci: False
      show ?thesis
      proof (cases "p = i")
        case True
        have "heap_le m (h ! q) (h ! c)" using P2[OF ch _ cl] cp True by simp
        then show ?thesis using True ci cq qi by (simp add: nth)
      next
        case pi: False
        show ?thesis
        proof (cases "p = q")
          case True
          have "heap_le m (h ! q) (h ! c)" using P1[OF ci _ cl] cp True by simp
          then have "heap_le m (h ! i) (h ! c)" using heap_le_trans[OF iq] by blast
          then show ?thesis using True ci cq by (simp add: nth)
        next
          case False
          have "heap_le m (h ! p) (h ! c)" using P1[OF ci cp cl] .
          then show ?thesis using False pi ci cq by (simp add: nth)
        qed
      qed
    qed
  next
    fix g c assume a: "is_child q g \<and> is_child c q \<and> c < length ?h'"
    then have gq: "is_child q g" and cq: "is_child c q" and cl: "c < length h" by auto
    have g: "g < q" using is_child_less[OF gq] .
    have c: "q < c" using is_child_less[OF cq] .
    have gq': "heap_le m (h ! g) (h ! q)" using P1[OF _ gq ql] qi by simp
    show "heap_le m (?h' ! g) (?h' ! c)"
    proof (cases "c = i")
      case True
      then show ?thesis using gq' g qi by (simp add: nth)
    next
      case False
      have "heap_le m (h ! q) (h ! c)" using P1[OF False cq cl] .
      then have "heap_le m (h ! g) (h ! c)" using heap_le_trans[OF gq'] by blast
      then show ?thesis using False g qi c by (simp add: nth)
    qed
  qed
qed

lemma up_inv_step:
  assumes "up_inv m h i" "i < length h" "0 < i" "compare m (h ! i) (h ! ((i - 1) div 2))"
  shows "up_inv m (swap_list h i ((i - 1) div 2)) ((i - 1) div 2)"
  using up_inv_step_child[OF assms(1,2) is_child_parent[OF assms(3)] assms(4)] .

subsection \<open>What the loops establish\<close>

lemma heapify_down_pair:
  "heapify_down i (self, p) = heapify_down_loop (length (heap self)) i (self, p)"
  by (simp add: heapify_down_def)

lemma heapify_down_props:
  "\<exists>h' p'. heapify_down i (self, p) = Some (Inr (self\<lparr>heap := h'\<rparr>, p')) \<and>
      length h' = length (heap self) \<and> mset h' = mset (heap self) \<and>
      (down_inv (is_min self) k (heap self) i \<longrightarrow> heap_from (is_min self) k h')"
proof -
  let ?m = "is_min self" and ?h = "heap self"
  let ?I = "\<lambda>i' h' (p'::'a chart list). length h' = length ?h \<and> mset h' = mset ?h \<and>
              (down_inv ?m k ?h i \<longrightarrow> down_inv ?m k h' i')"
  let ?Q = "\<lambda>h' (p'::'a chart list). mset h' = mset ?h \<and> (down_inv ?m k ?h i \<longrightarrow> heap_from ?m k h')"
  have "\<exists>h' p'. heapify_down_loop (length ?h) i (self, p) = Some (Inr (self\<lparr>heap := h'\<rparr>, p')) \<and>
          length h' = length ?h \<and> ?Q h' p'"
  proof (rule heapify_down_loop_rule[where I = ?I and Q = ?Q and m = ?m])
    show "?I i ?h p" by simp
    show "is_min self = ?m" by simp
  next
    fix i' h' and p' :: "'a chart list"
    assume a: "?I i' h' p'" and ne: "swap_idx_of ?m h' i' \<noteq> i'"
    have b: "i' < swap_idx_of ?m h' i'" "swap_idx_of ?m h' i' < length h'"
      using swap_idx_of_bounds[OF ne] by auto
    then have "mset (swap_list h' i' (swap_idx_of ?m h' i')) = mset h'" by simp
    then show "?I (swap_idx_of ?m h' i') (swap_list h' i' (swap_idx_of ?m h' i'))
            (p' @ [(swap_list h' i' (swap_idx_of ?m h' i'), [i', swap_idx_of ?m h' i'])])"
      using a down_inv_step[OF _ ne] by simp
  next
    fix i' h' and p' :: "'a chart list"
    assume a: "?I i' h' p'" and e: "swap_idx_of ?m h' i' = i'"
    show "?Q h' p'" using a down_inv_final[OF _ e] by blast
  qed
  then show ?thesis by (simp add: heapify_down_pair)
qed

lemma heapify_down_noop:
  "swap_idx_of (is_min self) (heap self) i = i \<Longrightarrow> heapify_down i (self, p) = Some (Inr (self, p))"
  unfolding heapify_down_pair by (subst heapify_down_loop_unfold) (simp add: Let_def)

lemma heap_from_no_swap:
  assumes "heap_from m k h" "k \<le> i"
  shows "swap_idx_of m h i = i"
proof -
  have "\<And>c. is_child c i \<Longrightarrow> c < length h \<Longrightarrow> \<not> compare m (h ! c) (h ! i)"
    using assms unfolding heap_from_def compare_iff by blast
  then have "2 * i + 1 < length h \<Longrightarrow> \<not> compare m (h ! (2 * i + 1)) (h ! i)"
     and "2 * i + 2 < length h \<Longrightarrow> \<not> compare m (h ! (2 * i + 2)) (h ! i)"
    by (simp_all add: is_child_def)
  then show ?thesis by (auto simp: swap_idx_of_def Let_def)
qed

lemma heapify_down_plot:
  "\<exists>h' es. heapify_down i (self, p) = Some (Inr (self\<lparr>heap := h'\<rparr>, p @ es))"
proof -
  let ?m = "is_min self" and ?h = "heap self"
  let ?I = "\<lambda>(i'::nat) (h'::'a list) (p'::'a chart list). \<exists>es. p' = p @ es"
  let ?Q = "\<lambda>(h'::'a list) (p'::'a chart list). \<exists>es. p' = p @ es"
  have "\<exists>h' p'. heapify_down_loop (length ?h) i (self, p) = Some (Inr (self\<lparr>heap := h'\<rparr>, p')) \<and>
          length h' = length ?h \<and> ?Q h' p'"
    by (rule heapify_down_loop_rule[where I = ?I and Q = ?Q and m = ?m]) auto
  then show ?thesis unfolding heapify_down_pair by blast
qed

lemma heapify_down_first:
  assumes ne: "swap_idx_of (is_min self) (heap self) i \<noteq> i"
  shows "\<exists>h' es. heapify_down i (self, p) =
           Some (Inr (self\<lparr>heap := h'\<rparr>,
             p @ (swap_list (heap self) i (swap_idx_of (is_min self) (heap self) i),
                  [i, swap_idx_of (is_min self) (heap self) i]) # es))"
proof -
  let ?j = "swap_idx_of (is_min self) (heap self) i"
  let ?self' = "self\<lparr>heap := swap_list (heap self) i ?j\<rparr>"
  let ?e = "(swap_list (heap self) i ?j, [i, ?j])"
  obtain h' es where "heapify_down ?j (?self', p @ [?e]) = Some (Inr (?self'\<lparr>heap := h'\<rparr>, (p @ [?e]) @ es))"
    using heapify_down_plot by blast
  moreover have "heapify_down i (self, p) = heapify_down ?j (?self', p @ [?e])"
    unfolding heapify_down_pair using ne by (subst heapify_down_loop_unfold) (simp add: Let_def)
  ultimately have "heapify_down i (self, p) = Some (Inr (self\<lparr>heap := h'\<rparr>, p @ ?e # es))"
    by simp
  then show ?thesis by blast
qed

lemma heapify_up_props:
  assumes "i < length (heap self)"
  shows "\<exists>h' p'. heapify_up i (self, p) = Some (Inr (self\<lparr>heap := h'\<rparr>, p')) \<and>
      length h' = length (heap self) \<and> mset h' = mset (heap self) \<and>
      (up_inv (is_min self) (heap self) i \<longrightarrow> heap_from (is_min self) 0 h')"
proof -
  let ?m = "is_min self" and ?h = "heap self"
  let ?I = "\<lambda>i' h' (p'::'a chart list). length h' = length ?h \<and> mset h' = mset ?h \<and>
              (up_inv ?m ?h i \<longrightarrow> up_inv ?m h' i')"
  let ?Q = "\<lambda>h' (p'::'a chart list). mset h' = mset ?h \<and> (up_inv ?m ?h i \<longrightarrow> heap_from ?m 0 h')"
  have "\<exists>h' p'. heapify_up i (self, p) = Some (Inr (self\<lparr>heap := h'\<rparr>, p')) \<and>
          length h' = length ?h \<and> ?Q h' p'"
  proof (rule heapify_up_rule[where I = ?I and Q = ?Q and m = ?m])
    show "?I i ?h p" by simp
    show "is_min self = ?m" by simp
    show "i < length ?h" using assms .
  next
    fix i' h' and p' :: "'a chart list"
    assume a: "?I i' h' p'" and l: "i' < length h'" and pos: "0 < i'"
      and c: "compare ?m (h' ! i') (h' ! ((i' - 1) div 2))"
    have "(i' - 1) div 2 < length h'" using l by arith
    then have "mset (swap_list h' i' ((i' - 1) div 2)) = mset h'" using l by simp
    then show "?I ((i' - 1) div 2) (swap_list h' i' ((i' - 1) div 2))
            (p' @ [(swap_list h' i' ((i' - 1) div 2), [i', (i' - 1) div 2])])"
      using a up_inv_step[OF _ l pos c] by simp
  next
    fix i' h' and p' :: "'a chart list"
    assume a: "?I i' h' p'" and e: "\<not> (0 < i' \<and> compare ?m (h' ! i') (h' ! ((i' - 1) div 2)))"
    show "?Q h' p'" using a up_inv_final[OF _ e] by blast
  qed
  then show ?thesis by blast
qed

subsection \<open>The methods\<close>

lemma heap_from_mono: "heap_from m k h \<Longrightarrow> k \<le> k' \<Longrightarrow> heap_from m k' h"
  unfolding heap_from_def by (meson le_trans)

lemma heap_from_leaves: "length h div 2 \<le> k \<Longrightarrow> heap_from m k h"
  unfolding heap_from_def is_child_def by (auto; arith)

lemma heap_from_down_inv: "heap_from m (Suc j) h \<Longrightarrow> down_inv m j h j"
  unfolding heap_from_def down_inv_def
proof (intro conjI allI impI)
  fix p c assume H: "\<forall>p c. Suc j \<le> p \<and> is_child c p \<and> c < length h \<longrightarrow> heap_le m (h ! p) (h ! c)"
    and a: "j \<le> p \<and> p \<noteq> j \<and> is_child c p \<and> c < length h"
  then have "Suc j \<le> p" by simp
  then show "heap_le m (h ! p) (h ! c)" using H a by blast
next
  fix g c assume a: "j \<le> g \<and> is_child j g \<and> is_child c j \<and> c < length h"
  then have "g < j" using is_child_less by blast
  then show "heap_le m (h ! g) (h ! c)" using a by simp
qed

lemma for_each_heapify_down:
  "\<exists>h' p'. for_each (rev [0..<j]) heapify_down (self, p) = Some (Inr (self\<lparr>heap := h'\<rparr>, p')) \<and>
      length h' = length (heap self) \<and> mset h' = mset (heap self) \<and>
      (heap_from (is_min self) j (heap self) \<longrightarrow> heap_from (is_min self) 0 h')"
proof (induction j arbitrary: self p)
  case 0
  show ?case by (intro exI[of _ "heap self"] exI[of _ p]) simp
next
  case (Suc j)
  obtain h1 p1 where s: "heapify_down j (self, p) = Some (Inr (self\<lparr>heap := h1\<rparr>, p1))"
      "length h1 = length (heap self)" "mset h1 = mset (heap self)"
      "down_inv (is_min self) j (heap self) j \<longrightarrow> heap_from (is_min self) j h1"
    using heapify_down_props[of j self p j] by blast
  let ?self1 = "self\<lparr>heap := h1\<rparr>"
  obtain h2 p2 where t: "for_each (rev [0..<j]) heapify_down (?self1, p1) = Some (Inr (?self1\<lparr>heap := h2\<rparr>, p2))"
      "length h2 = length (heap ?self1)" "mset h2 = mset (heap ?self1)"
      "heap_from (is_min ?self1) j (heap ?self1) \<longrightarrow> heap_from (is_min ?self1) 0 h2"
    using Suc.IH[of ?self1 p1] by blast
  have "for_each (rev [0..<Suc j]) heapify_down (self, p) = Some (Inr (self\<lparr>heap := h2\<rparr>, p2))"
    using s(1) t(1) by simp
  moreover have "heap_from (is_min self) (Suc j) (heap self) \<longrightarrow> heap_from (is_min self) 0 h2"
    using s(4) t(4) heap_from_down_inv by auto
  ultimately show ?case using s(2,3) t(2,3) by (intro exI[of _ h2] exI[of _ p2]) simp
qed

lemma build_heap_props:
  "\<exists>h' p'. build_heap arr (self, p) = Some (Inr (self\<lparr>heap := h'\<rparr>, p')) \<and>
      length h' = length arr \<and> mset h' = mset arr \<and> heap_from (is_min self) 0 h'"
proof -
  let ?self1 = "self\<lparr>heap := arr\<rparr>"
  obtain h' p' where t: "for_each (rev [0..<length arr div 2]) heapify_down (?self1, p @ [(arr, [])])
        = Some (Inr (?self1\<lparr>heap := h'\<rparr>, p'))"
      "length h' = length (heap ?self1)" "mset h' = mset (heap ?self1)"
      "heap_from (is_min ?self1) (length arr div 2) (heap ?self1) \<longrightarrow> heap_from (is_min ?self1) 0 h'"
    using for_each_heapify_down[of "length arr div 2" ?self1 "p @ [(arr, [])]"] by blast
  have "build_heap arr (self, p) = Some (Inr (self\<lparr>heap := h'\<rparr>, p'))"
    using t(1) by (simp add: build_heap_def Let_def)
  moreover have "heap_from (is_min self) 0 h'" using t(4) heap_from_leaves[of arr "length arr div 2"] by simp
  ultimately show ?thesis using t(2,3) by (intro exI[of _ h'] exI[of _ p']) simp
qed

lemma heap_from_up_inv:
  assumes "heap_from m 0 h"
  shows "up_inv m (h @ [v]) (length h)"
  unfolding up_inv_def
proof (intro conjI allI impI)
  fix p c assume a: "c \<noteq> length h \<and> is_child c p \<and> c < length (h @ [v])"
  then have c: "c < length h" by simp
  then have "p < length h" using a is_child_less[of c p] by simp
  then show "heap_le m ((h @ [v]) ! p) ((h @ [v]) ! c)"
    using assms a c unfolding heap_from_def by (simp add: nth_append)
next
  fix g c assume a: "is_child (length h) g \<and> is_child c (length h) \<and> c < length (h @ [v])"
  then have "length h < c" using is_child_less by blast
  then show "heap_le m ((h @ [v]) ! g) ((h @ [v]) ! c)" using a by simp
qed

lemma insert_heap_props:
  "\<exists>h' p'. insert_heap v (self, p) = Some (Inr (self\<lparr>heap := h'\<rparr>, p')) \<and>
      length h' = length (heap self) + 1 \<and> mset h' = add_mset v (mset (heap self)) \<and>
      (heap_from (is_min self) 0 (heap self) \<longrightarrow> heap_from (is_min self) 0 h')"
proof -
  let ?self1 = "self\<lparr>heap := heap self @ [v]\<rparr>"
  have l: "length (heap self) < length (heap ?self1)" by simp
  obtain h' p' where t: "heapify_up (length (heap self)) (?self1, p) = Some (Inr (?self1\<lparr>heap := h'\<rparr>, p'))"
     "length h' = length (heap ?self1)" "mset h' = mset (heap ?self1)"
     "up_inv (is_min ?self1) (heap ?self1) (length (heap self)) \<longrightarrow> heap_from (is_min ?self1) 0 h'"
    using heapify_up_props[OF l, of p] by blast
  have "insert_heap v (self, p) = Some (Inr (self\<lparr>heap := h'\<rparr>, p'))"
    using t(1) by (simp add: insert_heap_def Let_def)
  moreover have "heap_from (is_min self) 0 (heap self) \<longrightarrow> heap_from (is_min self) 0 h'"
    using t(4) heap_from_up_inv by auto
  ultimately show ?thesis using t(2,3) by (intro exI[of _ h'] exI[of _ p']) simp
qed

lemma delete_root_empty:
  "heap self = [] \<Longrightarrow> delete_root (self, p) = Some (Inr (None, (self, p)))"
  by (simp add: delete_root_def)

lemma heap_from_replace_root:
  assumes "heap_from m 0 h"
  shows "down_inv m 0 ((butlast h)[0 := last h]) 0"
  unfolding down_inv_def
proof (intro conjI allI impI)
  fix p c assume a: "0 \<le> p \<and> p \<noteq> 0 \<and> is_child c p \<and> c < length ((butlast h)[0 := last h])"
  then have c: "c < length h - 1" by simp
  have pc: "p < c" using a is_child_less by blast
  have cl: "c < length h" using c by arith
  have "heap_le m (h ! p) (h ! c)" using assms a cl unfolding heap_from_def by blast
  then show "heap_le m ((butlast h)[0 := last h] ! p) ((butlast h)[0 := last h] ! c)"
    using a c pc by (simp add: nth_butlast)
next
  fix g c assume "0 \<le> g \<and> is_child 0 g \<and> is_child c 0 \<and> c < length ((butlast h)[0 := last h])"
  then have False using is_child_less[of 0 g] by simp
  then show "heap_le m ((butlast h)[0 := last h] ! g) ((butlast h)[0 := last h] ! c)" ..
qed

lemma mset_replace_root:
  assumes "butlast h \<noteq> []"
  shows "add_mset (h ! 0) (mset ((butlast h)[0 := last h])) = mset h"
proof -
  have ne: "h \<noteq> []" using assms by auto
  obtain x xs where b: "butlast h = x # xs" using assms by (cases "butlast h") auto
  have "h = butlast h @ [last h]" using append_butlast_last_id[OF ne] by simp
  then have h: "h = x # xs @ [last h]" using b by simp
  have "add_mset ((x # xs @ [last h]) ! 0) (mset ((x # xs)[0 := last h])) = mset (x # xs @ [last h])"
    by simp
  then show ?thesis using b h by metis
qed

lemma butlast_nonempty_length: "butlast xs \<noteq> [] \<Longrightarrow> Suc 0 < length xs"
  by (cases xs) (auto split: if_splits)

lemma delete_root_props:
  assumes ne: "heap self \<noteq> []"
  shows "\<exists>h' p'. delete_root (self, p) = Some (Inr (Some (heap self ! 0), (self\<lparr>heap := h'\<rparr>, p'))) \<and>
      length h' + 1 = length (heap self) \<and> add_mset (heap self ! 0) (mset h') = mset (heap self) \<and>
      (heap_from (is_min self) 0 (heap self) \<longrightarrow> heap_from (is_min self) 0 h')"
proof (cases "butlast (heap self) = []")
  case True
  then have h: "heap self = [heap self ! 0]" using ne
    by (metis append_butlast_last_id append_Nil nth_Cons_0)
  have "delete_root (self, p) = Some (Inr (Some (heap self ! 0), (self\<lparr>heap := []\<rparr>, p)))"
    using ne True by (simp add: delete_root_def getitem_def pop_def)
  moreover have "add_mset (heap self ! 0) (mset []) = mset (heap self)" using h by (metis mset.simps(1) mset.simps(2))
  moreover have "length ([]::'a list) + 1 = length (heap self)"
    using h by (metis length_Cons list.size(3) One_nat_def add_0 Suc_eq_plus1)
  moreover have "heap_from (is_min self) 0 []" by (simp add: heap_from_def)
  ultimately show ?thesis by (rule_tac x = "[]" in exI, rule_tac x = p in exI) blast
next
  case False
  let ?h1 = "(butlast (heap self))[0 := last (heap self)]"
  let ?self1 = "self\<lparr>heap := ?h1\<rparr>"
  obtain h' p' where t: "heapify_down 0 (?self1, p) = Some (Inr (?self1\<lparr>heap := h'\<rparr>, p'))"
      "length h' = length (heap ?self1)" "mset h' = mset (heap ?self1)"
      "down_inv (is_min ?self1) 0 (heap ?self1) 0 \<longrightarrow> heap_from (is_min ?self1) 0 h'"
    using heapify_down_props[of 0 ?self1 p 0] by blast
  have "delete_root (self, p) = Some (Inr (Some (heap self ! 0), (self\<lparr>heap := h'\<rparr>, p')))"
    using ne False t(1) butlast_nonempty_length[OF False]
    by (simp add: delete_root_def getitem_def pop_def setitem_def Let_def)
  moreover have "length h' + 1 = length (heap self)" using t(2) ne by simp
  moreover have "add_mset (heap self ! 0) (mset h') = mset (heap self)"
    using t(3) mset_replace_root[OF False] by simp
  moreover have "heap_from (is_min self) 0 (heap self) \<longrightarrow> heap_from (is_min self) 0 h'"
    using t(4) heap_from_replace_root by auto
  ultimately show ?thesis by (intro exI[of _ h'] exI[of _ p']) simp
qed

lemma root_first:
  assumes "heap_from m 0 h"
  shows "c < length h \<Longrightarrow> heap_le m (h ! 0) (h ! c)"
proof (induction c rule: less_induct)
  case (less c)
  show ?case
  proof (cases "c = 0")
    case True then show ?thesis by simp
  next
    case False
    let ?q = "(c - 1) div 2"
    have ch: "is_child c ?q" using False is_child_parent by simp
    have q: "?q < c" using is_child_less[OF ch] .
    have "heap_le m (h ! ?q) (h ! c)" using assms ch less.prems unfolding heap_from_def by blast
    moreover have "heap_le m (h ! 0) (h ! ?q)" using less.IH[OF q] q less.prems by simp
    ultimately show ?thesis using heap_le_trans by blast
  qed
qed

subsection \<open>Sequences of operations\<close>

lemma perform_props:
  "\<exists>r h' p'. perform x (self, p) = Some (Inr (r, (self\<lparr>heap := h'\<rparr>, p'))) \<and>
      (heap_from (is_min self) 0 (heap self) \<longrightarrow> heap_from (is_min self) 0 h') \<and>
      (\<forall>es N. tracks ((x, r) # es) (mset (heap self)) N = tracks es (mset h') N)"
proof (cases x)
  case (Build arr)
  obtain h' p' where "build_heap arr (self, p) = Some (Inr (self\<lparr>heap := h'\<rparr>, p'))"
      "mset h' = mset arr" "heap_from (is_min self) 0 h'"
    using build_heap_props[of arr self p] by blast
  then show ?thesis using Build
    by (rule_tac x = None in exI, rule_tac x = h' in exI, rule_tac x = p' in exI) simp
next
  case (Insert v)
  obtain h' p' where "insert_heap v (self, p) = Some (Inr (self\<lparr>heap := h'\<rparr>, p'))"
      "mset h' = add_mset v (mset (heap self))"
      "heap_from (is_min self) 0 (heap self) \<longrightarrow> heap_from (is_min self) 0 h'"
    using insert_heap_props[of v self p] by blast
  then show ?thesis using Insert
    by (rule_tac x = None in exI, rule_tac x = h' in exI, rule_tac x = p' in exI) simp
next
  case DeleteRoot
  show ?thesis
  proof (cases "heap self = []")
    case True
    have "self\<lparr>heap := heap self\<rparr> = self" by simp
    then show ?thesis using DeleteRoot True delete_root_empty[OF True, of p]
      by (rule_tac x = None in exI, rule_tac x = "heap self" in exI, rule_tac x = p in exI) simp
  next
    case False
    obtain h' p' where t: "delete_root (self, p) = Some (Inr (Some (heap self ! 0), (self\<lparr>heap := h'\<rparr>, p')))"
      "add_mset (heap self ! 0) (mset h') = mset (heap self)"
      "heap_from (is_min self) 0 (heap self) \<longrightarrow> heap_from (is_min self) 0 h'"
      using delete_root_props[OF False, of p] by blast
    have "heap self ! 0 \<in># mset (heap self)" using False by simp
    moreover have "mset (heap self) - {#heap self ! 0#} = mset h'" using t(2) by (metis add_mset_remove_trivial)
    ultimately show ?thesis using DeleteRoot t(1,3)
      by (rule_tac x = "Some (heap self ! 0)" in exI, rule_tac x = h' in exI, rule_tac x = p' in exI) simp
  qed
qed

lemma run_props:
  "\<exists>rs h' p'. run ops (self, p) = Some (Inr (rs, (self\<lparr>heap := h'\<rparr>, p'))) \<and>
      length rs = length ops \<and>
      (heap_from (is_min self) 0 (heap self) \<longrightarrow> heap_from (is_min self) 0 h') \<and>
      tracks (zip ops rs) (mset (heap self)) (mset h')"
proof (induction ops arbitrary: self p)
  case Nil
  show ?case by (rule_tac x = "[]" in exI, rule_tac x = "heap self" in exI, rule_tac x = p in exI) simp
next
  case (Cons x ops)
  obtain r h1 p1 where s: "perform x (self, p) = Some (Inr (r, (self\<lparr>heap := h1\<rparr>, p1)))"
      "heap_from (is_min self) 0 (heap self) \<longrightarrow> heap_from (is_min self) 0 h1"
      "\<And>es N. tracks ((x, r) # es) (mset (heap self)) N = tracks es (mset h1) N"
    using perform_props[of x self p] by blast
  let ?self1 = "self\<lparr>heap := h1\<rparr>"
  obtain rs h2 p2 where t: "run ops (?self1, p1) = Some (Inr (rs, (?self1\<lparr>heap := h2\<rparr>, p2)))"
      "length rs = length ops"
      "heap_from (is_min ?self1) 0 (heap ?self1) \<longrightarrow> heap_from (is_min ?self1) 0 h2"
      "tracks (zip ops rs) (mset (heap ?self1)) (mset h2)"
    using Cons.IH[of ?self1 p1] by blast
  have "run (x # ops) (self, p) = Some (Inr (r # rs, (self\<lparr>heap := h2\<rparr>, p2)))"
    using s(1) t(1) by simp
  moreover have "tracks (zip (x # ops) (r # rs)) (mset (heap self)) (mset h2)"
    using s(3) t(4) by simp
  ultimately show ?case using s(2) t(2,3)
    by (rule_tac x = "r # rs" in exI, rule_tac x = h2 in exI, rule_tac x = p2 in exI) simp
qed

lemma run_append:
  "run (xs @ ys) w =
     (case run xs w of
        None \<Rightarrow> None
      | Some (Inl e) \<Rightarrow> Some (Inl e)
      | Some (Inr (rs, w')) \<Rightarrow>
         (case run ys w' of
            None \<Rightarrow> None
          | Some (Inl e) \<Rightarrow> Some (Inl e)
          | Some (Inr (rs', w'')) \<Rightarrow> Some (Inr (rs @ rs', w''))))"
  by (induction xs arbitrary: w) (auto split: option.splits sum.splits prod.splits)

lemma drain:
  assumes "heap_from (is_min self) 0 (heap self)" "length (heap self) = n"
  shows "\<exists>rs p'. run (replicate n DeleteRoot) (self, p) = Some (Inr (map Some rs, (self\<lparr>heap := []\<rparr>, p'))) \<and>
           mset rs = mset (heap self) \<and> sorted_wrt (heap_le (is_min self)) rs"
  using assms
proof (induction n arbitrary: self p)
  case 0
  then have "self\<lparr>heap := []\<rparr> = self" by simp
  then show ?case using 0 by (rule_tac x = "[]" in exI, rule_tac x = p in exI) simp
next
  case (Suc n)
  have ne: "heap self \<noteq> []" using Suc.prems(2) by auto
  obtain h1 p1 where s: "delete_root (self, p) = Some (Inr (Some (heap self ! 0), (self\<lparr>heap := h1\<rparr>, p1)))"
      "length h1 + 1 = length (heap self)" "add_mset (heap self ! 0) (mset h1) = mset (heap self)"
      "heap_from (is_min self) 0 h1"
    using delete_root_props[OF ne, of p] Suc.prems(1) by blast
  let ?self1 = "self\<lparr>heap := h1\<rparr>"
  have "heap_from (is_min ?self1) 0 (heap ?self1)" "length (heap ?self1) = n"
    using s(2,4) Suc.prems(2) by simp_all
  from Suc.IH[OF this, of p1]
  obtain rs p2 where t: "run (replicate n DeleteRoot) (?self1, p1) = Some (Inr (map Some rs, (?self1\<lparr>heap := []\<rparr>, p2)))"
      "mset rs = mset h1" "sorted_wrt (heap_le (is_min self)) rs"
    by auto
  let ?rs = "heap self ! 0 # rs"
  have "run (replicate (Suc n) DeleteRoot) (self, p) = Some (Inr (map Some ?rs, (self\<lparr>heap := []\<rparr>, p2)))"
    using s(1) t(1) by simp
  moreover have "mset ?rs = mset (heap self)" using s(3) t(2) by simp
  moreover have "\<forall>x \<in> set rs. heap_le (is_min self) (heap self ! 0) x"
  proof
    fix x assume "x \<in> set rs"
    then have "x \<in># mset (heap self)" using t(2) s(3) by (metis insert_iff set_mset_add_mset_insert set_mset_mset)
    then obtain c where "c < length (heap self)" "heap self ! c = x" by (metis in_set_conv_nth set_mset_mset)
    then show "heap_le (is_min self) (heap self ! 0) x" using root_first[OF Suc.prems(1)] by blast
  qed
  ultimately show ?case using t(3)
    by (rule_tac x = ?rs in exI, rule_tac x = p2 in exI) simp
qed

lemma sorted_wrt_heap_le:
  "sorted_wrt (heap_le m) rs \<Longrightarrow> mset rs = mset xs \<Longrightarrow> rs = (if m then sort xs else rev (sort xs))"
proof (cases m)
  case True
  assume a: "sorted_wrt (heap_le m) rs" "mset rs = mset xs"
  have e: "heap_le True = (\<le>)" by (intro ext) (simp add: heap_le_def)
  have "sorted rs" using a(1) True by (simp add: e)
  then have "sort xs = rs" using a(2) by (simp add: properties_for_sort)
  then show ?thesis using True by simp
next
  case False
  assume a: "sorted_wrt (heap_le m) rs" "mset rs = mset xs"
  have e: "heap_le False = (\<lambda>x y. y \<le> x)" by (intro ext) (simp add: heap_le_def)
  have "sorted (rev rs)" using a(1) False by (simp add: e sorted_wrt_rev)
  moreover have "mset (rev rs) = mset xs" using a(2) by simp
  ultimately have "sort xs = rev rs" by (simp add: properties_for_sort)
  then have "rev (sort xs) = rs" by simp
  then show ?thesis using False by simp
qed

subsection \<open>First exchange, no exchange, and the exchanges of a whole loop\<close>

lemma swap_idx_of_both:
  "2 * i + 2 < length h \<Longrightarrow>
   swap_idx_of m h i =
     (let cand = (if compare m (h ! (2 * i + 1)) (h ! i) then 2 * i + 1 else i)
      in if compare m (h ! (2 * i + 2)) (h ! cand) then 2 * i + 2 else cand)"
  by (simp add: swap_idx_of_def Let_def)

lemma heapify_down_result:
  "\<exists>h' es. heapify_down i (self, p) = Some (Inr (self\<lparr>heap := h'\<rparr>, p @ es)) \<and>
     (swap_idx_of (is_min self) (heap self) i = i \<longrightarrow> es = [] \<and> h' = heap self) \<and>
     (swap_idx_of (is_min self) (heap self) i \<noteq> i \<longrightarrow>
        es \<noteq> [] \<and>
        hd es = (swap_list (heap self) i (swap_idx_of (is_min self) (heap self) i),
                 [i, swap_idx_of (is_min self) (heap self) i]))"
proof (cases "swap_idx_of (is_min self) (heap self) i = i")
  case True
  have "heapify_down i (self, p) = Some (Inr (self\<lparr>heap := heap self\<rparr>, p @ []))"
    using heapify_down_noop[OF True, of p] by simp
  then show ?thesis using True by blast
next
  case False
  obtain h' es where "heapify_down i (self, p) =
           Some (Inr (self\<lparr>heap := h'\<rparr>,
             p @ (swap_list (heap self) i (swap_idx_of (is_min self) (heap self) i),
                  [i, swap_idx_of (is_min self) (heap self) i]) # es))"
    using heapify_down_first[OF False, of p] by blast
  then show ?thesis using False
    by (intro exI[of _ h'] exI[of _ "(swap_list (heap self) i (swap_idx_of (is_min self) (heap self) i),
                  [i, swap_idx_of (is_min self) (heap self) i]) # es"]) simp
qed

lemma for_each_heapify_down_noop:
  "heap_from (is_min self) 0 (heap self) \<Longrightarrow>
   for_each (rev [0..<j]) heapify_down (self, p) = Some (Inr (self, p))"
proof (induction j)
  case 0
  show ?case by simp
next
  case (Suc j)
  have "swap_idx_of (is_min self) (heap self) j = j"
    using heap_from_no_swap[OF Suc.prems] by simp
  then have "heapify_down j (self, p) = Some (Inr (self, p))" by (rule heapify_down_noop)
  then show ?case using Suc.IH[OF Suc.prems] by simp
qed

lemma heapify_up_out_of_range:
  assumes "0 < i" "length (heap self) \<le> i"
  shows "heapify_up i (self, p) = Some (Inl IndexError)"
  using assms by (subst heapify_up.simps) (simp add: compare_at_def getitem_def Let_def)

lemma heapify_up_root: "heapify_up 0 w = Some (Inr w)"
  by (subst heapify_up.simps) simp

lemma heapify_down_trace:
  "\<exists>h' es. heapify_down i (self, p) = Some (Inr (self\<lparr>heap := h'\<rparr>, p @ es)) \<and>
      length es \<le> length (heap self) - i \<and>
      (\<forall>e \<in> set es. \<exists>a b. snd e = [a, b] \<and> i \<le> a \<and> a < b \<and> b < length (heap self))"
proof -
  let ?m = "is_min self" and ?h = "heap self"
  let ?ok = "\<lambda>es::'a chart list. \<forall>e \<in> set es. \<exists>a b. snd e = [a, b] \<and> i \<le> a \<and> a < b \<and> b < length ?h"
  let ?I = "\<lambda>i' (h'::'a list) (p'::'a chart list). length h' = length ?h \<and> i \<le> i' \<and>
              (\<exists>es. p' = p @ es \<and> length es \<le> i' - i \<and> (es = [] \<or> i' < length ?h) \<and> ?ok es)"
  let ?Q = "\<lambda>(h'::'a list) (p'::'a chart list). \<exists>es. p' = p @ es \<and> length es \<le> length ?h - i \<and> ?ok es"
  have "\<exists>h' p'. heapify_down_loop (length ?h) i (self, p) = Some (Inr (self\<lparr>heap := h'\<rparr>, p')) \<and>
          length h' = length ?h \<and> ?Q h' p'"
  proof (rule heapify_down_loop_rule[where I = ?I and Q = ?Q and m = ?m])
    show "?I i ?h p" by simp
    show "is_min self = ?m" by simp
  next
    fix i' and h' :: "'a list" and p' :: "'a chart list"
    assume a: "?I i' h' p'" and ne: "swap_idx_of ?m h' i' \<noteq> i'"
    let ?j = "swap_idx_of ?m h' i'"
    let ?e = "(swap_list h' i' ?j, [i', ?j])"
    have b: "i' < ?j" "?j < length ?h" using swap_idx_of_bounds[OF ne] a by auto
    from a obtain es where es: "p' = p @ es" "length es \<le> i' - i" "?ok es" by blast
    have "p' @ [?e] = p @ (es @ [?e])" using es(1) by simp
    moreover have "length (es @ [?e]) \<le> ?j - i"
    proof -
      from a have "i \<le> i'" by blast
      then show ?thesis using es(2) b(1) by simp
    qed
    moreover have "?ok (es @ [?e])" using es(3) b a by auto
    ultimately have "\<exists>es'. p' @ [?e] = p @ es' \<and> length es' \<le> ?j - i \<and> (es' = [] \<or> ?j < length ?h) \<and> ?ok es'"
      using b(2) by blast
    then show "?I ?j (swap_list h' i' ?j) (p' @ [?e])" using a b by simp
  next
    fix i' and h' :: "'a list" and p' :: "'a chart list"
    assume a: "?I i' h' p'" and e: "swap_idx_of ?m h' i' = i'"
    from a obtain es where es: "p' = p @ es" "length es \<le> i' - i" "es = [] \<or> i' < length ?h" "?ok es"
      by blast
    have "length es \<le> length ?h - i" using es(2,3) by auto
    then show "?Q h' p'" using es(1,4) by blast
  qed
  then show ?thesis unfolding heapify_down_pair by blast
qed

lemma heapify_up_trace:
  assumes "i < length (heap self)"
  shows "\<exists>h' es. heapify_up i (self, p) = Some (Inr (self\<lparr>heap := h'\<rparr>, p @ es)) \<and>
      length es \<le> i \<and>
      (\<forall>e \<in> set es. \<exists>a b. snd e = [a, b] \<and> b < a \<and> a \<le> i)"
proof -
  let ?m = "is_min self" and ?h = "heap self"
  let ?ok = "\<lambda>es::'a chart list. \<forall>e \<in> set es. \<exists>a b. snd e = [a, b] \<and> b < a \<and> a \<le> i"
  let ?I = "\<lambda>i' (h'::'a list) (p'::'a chart list). i' \<le> i \<and>
              (\<exists>es. p' = p @ es \<and> length es \<le> i - i' \<and> ?ok es)"
  let ?Q = "\<lambda>(h'::'a list) (p'::'a chart list). \<exists>es. p' = p @ es \<and> length es \<le> i \<and> ?ok es"
  have "\<exists>h' p'. heapify_up i (self, p) = Some (Inr (self\<lparr>heap := h'\<rparr>, p')) \<and>
          length h' = length ?h \<and> ?Q h' p'"
  proof (rule heapify_up_rule[where I = ?I and Q = ?Q and m = ?m])
    show "?I i ?h p" by simp
    show "is_min self = ?m" by simp
    show "i < length ?h" using assms .
  next
    fix i' and h' :: "'a list" and p' :: "'a chart list"
    assume a: "?I i' h' p'" and pos: "0 < i'"
    let ?q = "(i' - 1) div 2"
    let ?e = "(swap_list h' i' ?q, [i', ?q])"
    have q: "?q < i'" using pos by arith
    from a obtain es where es: "p' = p @ es" "length es \<le> i - i'" "?ok es" by blast
    have "p' @ [?e] = p @ (es @ [?e])" using es(1) by simp
    moreover have "length (es @ [?e]) \<le> i - ?q"
    proof -
      from a have "i' \<le> i" by blast
      then show ?thesis using es(2) q by simp
    qed
    moreover have "?ok (es @ [?e])" using es(3) q a by auto
    ultimately have "\<exists>es'. p' @ [?e] = p @ es' \<and> length es' \<le> i - ?q \<and> ?ok es'" by blast
    then show "?I ?q (swap_list h' i' ?q) (p' @ [?e])" using a q by simp
  next
    fix i' and h' :: "'a list" and p' :: "'a chart list"
    assume a: "?I i' h' p'"
    from a obtain es where es: "p' = p @ es" "length es \<le> i - i'" "?ok es" by blast
    have "length es \<le> i" using es(2) by simp
    then show "?Q h' p'" using es(1,3) by blast
  qed
  then show ?thesis by blast
qed

lemma operations_return:
  "(\<exists>w'. heapify_down i (self, p) = Some (Inr w')) \<and>
   (\<exists>w'. build_heap arr (self, p) = Some (Inr w')) \<and>
   (\<exists>w'. insert_heap v (self, p) = Some (Inr w')) \<and>
   (\<exists>r w'. delete_root (self, p) = Some (Inr (r, w')))"
proof -
  have "\<exists>w'. heapify_down i (self, p) = Some (Inr w')"
    using heapify_down_plot[of i self p] by blast
  moreover have "\<exists>w'. build_heap arr (self, p) = Some (Inr w')"
    using build_heap_props[of arr self p] by blast
  moreover have "\<exists>w'. insert_heap v (self, p) = Some (Inr w')"
    using insert_heap_props[of v self p] by blast
  moreover have "\<exists>r w'. delete_root (self, p) = Some (Inr (r, w'))"
  proof (cases "heap self = []")
    case True
    then show ?thesis using delete_root_empty[of self p] by blast
  next
    case False
    then show ?thesis using delete_root_props[of self p] by blast
  qed
  ultimately show ?thesis by blast
qed

lemma heapify_down_step:
  assumes "swap_idx_of (is_min self) (heap self) i \<noteq> i"
  shows "heapify_down i (self, p) =
           heapify_down (swap_idx_of (is_min self) (heap self) i)
             (self\<lparr>heap := swap_list (heap self) i (swap_idx_of (is_min self) (heap self) i)\<rparr>,
              p @ [(swap_list (heap self) i (swap_idx_of (is_min self) (heap self) i),
                    [i, swap_idx_of (is_min self) (heap self) i])])"
  unfolding heapify_down_pair using assms
  by (subst heapify_down_loop_unfold) (simp add: Let_def)

lemma heapify_down_above:
  "\<exists>h' p'. heapify_down i (self, p) = Some (Inr (self\<lparr>heap := h'\<rparr>, p')) \<and>
      (\<forall>k < i. h' ! k = heap self ! k)"
proof -
  let ?m = "is_min self" and ?h = "heap self"
  let ?I = "\<lambda>i' (h'::'a list) (p'::'a chart list). length h' = length ?h \<and> i \<le> i' \<and>
              (\<forall>k < i. h' ! k = ?h ! k)"
  let ?Q = "\<lambda>(h'::'a list) (p'::'a chart list). \<forall>k < i. h' ! k = ?h ! k"
  have "\<exists>h' p'. heapify_down_loop (length ?h) i (self, p) = Some (Inr (self\<lparr>heap := h'\<rparr>, p')) \<and>
          length h' = length ?h \<and> ?Q h' p'"
  proof (rule heapify_down_loop_rule[where I = ?I and Q = ?Q and m = ?m])
    show "?I i ?h p" by simp
    show "is_min self = ?m" by simp
  next
    fix i' and h' :: "'a list" and p' :: "'a chart list"
    assume a: "?I i' h' p'" and ne: "swap_idx_of ?m h' i' \<noteq> i'"
    let ?j = "swap_idx_of ?m h' i'"
    have b: "i' < ?j" "?j < length h'" using swap_idx_of_bounds[OF ne] by auto
    then have il: "i' < length h'" by simp
    from a have ii: "i \<le> i'" and len: "length h' = length ?h" and same: "\<forall>k < i. h' ! k = ?h ! k"
      by blast+
    have "\<forall>k < i. swap_list h' i' ?j ! k = ?h ! k"
    proof (intro allI impI)
      fix k assume k: "k < i"
      then have "k \<noteq> i'" "k \<noteq> ?j" using ii b(1) by auto
      then have "swap_list h' i' ?j ! k = h' ! k" using nth_swap_list[OF il b(2), of k] by simp
      then show "swap_list h' i' ?j ! k = ?h ! k" using same k by simp
    qed
    then show "?I ?j (swap_list h' i' ?j) (p' @ [(swap_list h' i' ?j, [i', ?j])])"
      using len ii b(1) by simp
  next
    fix i' and h' :: "'a list" and p' :: "'a chart list"
    assume a: "?I i' h' p'"
    then show "?Q h' p'" by blast
  qed
  then show ?thesis unfolding heapify_down_pair by blast
qed

lemma heapify_down_same_result:
  assumes "heapify_down i (self, p) = Some (Inr (self\<lparr>heap := h1\<rparr>, p1))"
      and "heapify_down i (self, p) = Some (Inr (s2\<lparr>heap := h2\<rparr>, p2))"
  shows "h1 = h2"
proof -
  have "self\<lparr>heap := h1\<rparr> = s2\<lparr>heap := h2\<rparr>" using assms by simp
  then have "heap (self\<lparr>heap := h1\<rparr>) = heap (s2\<lparr>heap := h2\<rparr>)" by simp
  then show ?thesis by simp
qed

lemma heapify_down_exchange:
  assumes ne: "swap_idx_of (is_min self) (heap self) i \<noteq> i"
  shows "\<exists>h' es. heapify_down i (self, p) =
           Some (Inr (self\<lparr>heap := h'\<rparr>,
             p @ (swap_list (heap self) i (swap_idx_of (is_min self) (heap self) i),
                  [i, swap_idx_of (is_min self) (heap self) i]) # es)) \<and>
           h' ! i = heap self ! swap_idx_of (is_min self) (heap self) i \<and>
           (\<forall>k < swap_idx_of (is_min self) (heap self) i.
              h' ! k = swap_list (heap self) i (swap_idx_of (is_min self) (heap self) i) ! k)"
proof -
  let ?j = "swap_idx_of (is_min self) (heap self) i"
  let ?e = "(swap_list (heap self) i ?j, [i, ?j])"
  let ?self' = "self\<lparr>heap := swap_list (heap self) i ?j\<rparr>"
  have b: "i < ?j" "?j < length (heap self)" using swap_idx_of_bounds[OF ne] by auto
  then have il: "i < length (heap self)" by simp
  obtain h1 es where f: "heapify_down i (self, p) = Some (Inr (self\<lparr>heap := h1\<rparr>, p @ ?e # es))"
    using heapify_down_first[OF ne, of p] by blast
  obtain h2 p2 where g: "heapify_down ?j (?self', p @ [?e]) = Some (Inr (?self'\<lparr>heap := h2\<rparr>, p2))"
      "\<forall>k < ?j. h2 ! k = heap ?self' ! k"
    using heapify_down_above[of ?j ?self' "p @ [?e]"] by blast
  have "heapify_down i (self, p) = Some (Inr (?self'\<lparr>heap := h2\<rparr>, p2))"
    using g(1) heapify_down_step[OF ne, of p] by simp
  from heapify_down_same_result[OF f this] have eq: "h1 = h2" .
  have all: "\<forall>k < ?j. h1 ! k = swap_list (heap self) i ?j ! k" using g(2) eq by simp
  moreover have "swap_list (heap self) i ?j ! i = heap self ! ?j"
    using nth_swap_list[OF il b(2), of i] b(1) by simp
  ultimately have "h1 ! i = heap self ! ?j" using b(1) by simp
  then show ?thesis using f all by blast
qed

lemma heapify_down_permutes:
  assumes "heapify_down i (self, p) = Some (Inr (self\<lparr>heap := h'\<rparr>, p'))"
  shows "length h' = length (heap self) \<and> mset h' = mset (heap self)"
proof -
  obtain h1 p1 where r: "heapify_down i (self, p) = Some (Inr (self\<lparr>heap := h1\<rparr>, p1))"
      "length h1 = length (heap self)" "mset h1 = mset (heap self)"
    using heapify_down_props[of i self p 0] by blast
  from heapify_down_same_result[OF assms r(1)] show ?thesis using r(2,3) by simp
qed

section \<open>The claims\<close>

text \<open>
  C1. Heap order is kept by every operation, for either polarity. The list of a
  new object is in heap order. From an object whose list is in heap order,
  after the first \<open>n\<close> operations of any sequence of builds, inserts and
  deletes, all of them have returned, the polarity is the same and the list is
  in heap order. The same holds from any object at all when the sequence starts
  with a build.
\<close>

theorem heap_order_after_each_operation:
  "heap_order m (heap (init m :: 'a::linorder AnimatedHeap)) \<and>
   (heap_order (is_min self) (heap (self :: 'a AnimatedHeap)) \<longrightarrow>
      (\<exists>rs self' plot'. run (take n ops) (self, plot) = Some (Inr (rs, (self', plot'))) \<and>
           is_min self' = is_min self \<and> heap_order (is_min self) (heap self'))) \<and>
   (\<exists>rs self' plot'. run (Build arr # take n ops) (self, plot) = Some (Inr (rs, (self', plot'))) \<and>
           is_min self' = is_min self \<and> heap_order (is_min self) (heap self'))"
proof -
  have kept: "\<exists>rs self' plot'. run xs (s, p) = Some (Inr (rs, (self', plot'))) \<and>
           is_min self' = is_min s \<and> heap_order (is_min s) (heap self')"
    if "heap_order (is_min s) (heap s)" for xs and s :: "'a AnimatedHeap" and p
  proof -
    obtain rs h' p' where r: "run xs (s, p) = Some (Inr (rs, (s\<lparr>heap := h'\<rparr>, p')))"
        "heap_from (is_min s) 0 (heap s) \<longrightarrow> heap_from (is_min s) 0 h'"
      using run_props[of xs s p] by blast
    have "heap_order (is_min s) h'" using r(2) that by (simp add: heap_order_iff)
    then show ?thesis using r(1) by (intro exI[of _ rs] exI[of _ "s\<lparr>heap := h'\<rparr>"] exI[of _ p']) simp
  qed
  have a: "heap_order m (heap (init m :: 'a AnimatedHeap))"
    by (simp add: init_def heap_order_def)
  have c: "\<exists>rs self' plot'. run (Build arr # take n ops) (self, plot) = Some (Inr (rs, (self', plot'))) \<and>
           is_min self' = is_min self \<and> heap_order (is_min self) (heap self')"
  proof -
    obtain h1 p1 where b: "build_heap arr (self, plot) = Some (Inr (self\<lparr>heap := h1\<rparr>, p1))"
        "heap_from (is_min self) 0 h1"
      using build_heap_props[of arr self plot] by blast
    let ?s1 = "self\<lparr>heap := h1\<rparr>"
    have "heap_order (is_min ?s1) (heap ?s1)" using b(2) by (simp add: heap_order_iff)
    from kept[OF this, of "take n ops" p1]
    obtain rs self' plot' where r: "run (take n ops) (?s1, p1) = Some (Inr (rs, (self', plot')))"
        "is_min self' = is_min self" "heap_order (is_min self) (heap self')"
      by auto
    have "run (Build arr # take n ops) (self, plot) = Some (Inr (None # rs, (self', plot')))"
      using b(1) r(1) by simp
    then show ?thesis using r(2,3) by blast
  qed
  show ?thesis using a kept[of self "take n ops" plot] c by blast
qed

theorem heap_order_after_each_operation_witness:
  "heap_order True (heap (init True :: int AnimatedHeap)) \<and>
   heap_order (is_min (init True :: int AnimatedHeap)) (heap (init True :: int AnimatedHeap)) \<and>
   (\<exists>rs self' plot'.
      run (take 3 [Build [5, 3, 8, 1], Insert 0, DeleteRoot, Insert 7]) (init True :: int AnimatedHeap, []) =
        Some (Inr (rs, (self', plot'))) \<and>
      is_min self' = is_min (init True :: int AnimatedHeap) \<and>
      heap_order (is_min (init True :: int AnimatedHeap)) (heap self'))"
proof -
  have h: "heap_order (is_min (init True :: int AnimatedHeap)) (heap (init True :: int AnimatedHeap))"
    by (simp add: init_def heap_order_def)
  show ?thesis
    using h heap_order_after_each_operation[of True "init True :: int AnimatedHeap" 3
        "[Build [5, 3, 8, 1], Insert 0, DeleteRoot, Insert 7]" "[]" "[]"]
    by blast
qed

text \<open>
  C2. After \<open>build_heap xs\<close>, the first \<open>length xs\<close> calls of
  \<^verbatim>\<open>delete_root\<close> return the values of \<open>xs\<close> in sorted order, ascending
  for a min-heap and descending for a max-heap, and the call after them returns
  nothing: the heap is empty.
\<close>

theorem root_extraction_order:
  "\<exists>w1 w2. build_heap xs (self, plot) = Some (Inr w1) \<and>
     run (replicate (length xs + 1) DeleteRoot) w1 =
       Some (Inr (map Some (if is_min self then sort xs else rev (sort xs)) @ [None], w2))"
proof -
  obtain h1 p1 where b: "build_heap xs (self, plot) = Some (Inr (self\<lparr>heap := h1\<rparr>, p1))"
      "length h1 = length xs" "mset h1 = mset xs" "heap_from (is_min self) 0 h1"
    using build_heap_props[of xs self plot] by blast
  let ?self1 = "self\<lparr>heap := h1\<rparr>"
  have "heap_from (is_min ?self1) 0 (heap ?self1)" "length (heap ?self1) = length xs"
    using b by simp_all
  from drain[OF this, of p1]
  obtain rs p2 where d: "run (replicate (length xs) DeleteRoot) (?self1, p1)
        = Some (Inr (map Some rs, (?self1\<lparr>heap := []\<rparr>, p2)))"
      "mset rs = mset h1" "sorted_wrt (heap_le (is_min self)) rs"
    by auto
  have rs: "rs = (if is_min self then sort xs else rev (sort xs))"
    using sorted_wrt_heap_le[OF d(3)] d(2) b(3) by simp
  have "replicate (length xs + 1) DeleteRoot = replicate (length xs) DeleteRoot @ [DeleteRoot :: 'a operation]"
    by (simp add: replicate_append_same)
  then have "run (replicate (length xs + 1) DeleteRoot) (?self1, p1)
      = Some (Inr (map Some rs @ [None], (?self1\<lparr>heap := []\<rparr>, p2)))"
    using d(1) by (simp add: run_append delete_root_def)
  then show ?thesis using b(1) rs by blast
qed

theorem root_extraction_order_witness:
  "\<exists>w1 w2. build_heap [3, 1, 2 :: int] (init True, []) = Some (Inr w1) \<and>
     run (replicate 4 DeleteRoot) w1 = Some (Inr ([Some 1, Some 2, Some 3, None], w2))"
proof -
  have s: "map Some (if is_min (init True :: int AnimatedHeap) then sort [3, 1, 2] else rev (sort [3, 1, 2 :: int])) @ [None]
      = [Some 1, Some 2, Some 3, None]"
    by (simp add: init_def)
  have l: "length [3, 1, 2 :: int] + 1 = 4" by simp
  show ?thesis using root_extraction_order[of "[3, 1, 2 :: int]" "init True" "[]"] unfolding s l .
qed

text \<open>
  C3. Over any sequence of operations, from any state, every operation returns
  and the values in the list are accounted for: a build replaces them by its
  input, an insert adds its value, a delete removes one copy of the value it
  returns, which was in the list, and a delete that returns nothing found the
  list empty.
\<close>

theorem multiset_accounting:
  "\<exists>rs w'. run ops w = Some (Inr (rs, w')) \<and> length rs = length ops \<and>
     tracks (zip ops rs) (mset (get_heap w)) (mset (get_heap w'))"
proof (cases w)
  case (Pair self p)
  obtain rs h' p' where "run ops (self, p) = Some (Inr (rs, (self\<lparr>heap := h'\<rparr>, p')))"
      "length rs = length ops" "tracks (zip ops rs) (mset (heap self)) (mset h')"
    using run_props[of ops self p] by blast
  then show ?thesis using Pair
    by (intro exI[of _ rs] exI[of _ "(self\<lparr>heap := h'\<rparr>, p')"]) (simp add: get_heap_def)
qed

theorem multiset_accounting_witness:
  "\<exists>rs w'. run [Build [3, 1], Insert 2, DeleteRoot] (init True :: int AnimatedHeap, []) = Some (Inr (rs, w')) \<and>
     length rs = length [Build [3, 1 :: int], Insert 2, DeleteRoot] \<and>
     tracks (zip [Build [3, 1], Insert 2, DeleteRoot] rs)
       (mset (get_heap (init True :: int AnimatedHeap, []))) (mset (get_heap w'))"
  by (rule multiset_accounting)

text \<open>
  C4. An insert makes the list one longer; a delete on a non-empty list returns
  a value and makes the list one shorter; a delete on the empty list returns
  nothing and leaves the length at 0.
\<close>

theorem size_accounting:
  "(\<exists>w'. insert_heap v w = Some (Inr w') \<and> length (get_heap w') = length (get_heap w) + 1) \<and>
   (get_heap w \<noteq> [] \<longrightarrow>
      (\<exists>x w'. delete_root w = Some (Inr (Some x, w')) \<and> length (get_heap w') + 1 = length (get_heap w))) \<and>
   (get_heap w = [] \<longrightarrow>
      (\<exists>w'. delete_root w = Some (Inr (None, w')) \<and> length (get_heap w') = 0))"
proof (cases w)
  case (Pair self p)
  obtain h1 p1 where i: "insert_heap v (self, p) = Some (Inr (self\<lparr>heap := h1\<rparr>, p1))"
      "length h1 = length (heap self) + 1"
    using insert_heap_props[of v self p] by blast
  have a: "\<exists>w'. insert_heap v w = Some (Inr w') \<and> length (get_heap w') = length (get_heap w) + 1"
    using i Pair by (intro exI[of _ "(self\<lparr>heap := h1\<rparr>, p1)"]) (simp add: get_heap_def)
  have b: "\<exists>x w'. delete_root w = Some (Inr (Some x, w')) \<and> length (get_heap w') + 1 = length (get_heap w)"
    if ne: "get_heap w \<noteq> []"
  proof -
    have "heap self \<noteq> []" using ne Pair by (simp add: get_heap_def)
    from delete_root_props[OF this, of p]
    obtain h2 p2 where "delete_root (self, p) = Some (Inr (Some (heap self ! 0), (self\<lparr>heap := h2\<rparr>, p2)))"
      "length h2 + 1 = length (heap self)" by blast
    then show ?thesis using Pair
      by (intro exI[of _ "heap self ! 0"] exI[of _ "(self\<lparr>heap := h2\<rparr>, p2)"]) (simp add: get_heap_def)
  qed
  have c: "\<exists>w'. delete_root w = Some (Inr (None, w')) \<and> length (get_heap w') = 0"
    if e: "get_heap w = []"
  proof -
    have "heap self = []" using e Pair by (simp add: get_heap_def)
    then show ?thesis using Pair delete_root_empty[of self p]
      by (intro exI[of _ w]) (simp add: get_heap_def)
  qed
  show ?thesis using a b c by blast
qed

theorem size_accounting_witness:
  "(\<exists>w'. insert_heap (4::int) (\<lparr>heap = [1, 5], is_min = True\<rparr>, []) = Some (Inr w') \<and>
      length (get_heap w') = length (get_heap (\<lparr>heap = [1, 5::int], is_min = True\<rparr>, [])) + 1) \<and>
   (\<exists>x w'. delete_root (\<lparr>heap = [1, 5::int], is_min = True\<rparr>, []) = Some (Inr (Some x, w')) \<and>
      length (get_heap w') + 1 = length (get_heap (\<lparr>heap = [1, 5::int], is_min = True\<rparr>, []))) \<and>
   (\<exists>w'. delete_root (init True :: int AnimatedHeap, []) = Some (Inr (None, w')) \<and>
      length (get_heap w') = 0)"
proof -
  have ne: "get_heap (\<lparr>heap = [1, 5::int], is_min = True\<rparr>, []) \<noteq> []" by (simp add: get_heap_def)
  have e: "get_heap (init True :: int AnimatedHeap, []) = []" by (simp add: get_heap_def init_def)
  show ?thesis
    using size_accounting[of 4 "(\<lparr>heap = [1, 5::int], is_min = True\<rparr>, [])"]
          size_accounting[of 4 "(init True :: int AnimatedHeap, [])"] ne e
    by blast
qed

text \<open>
  C5. A delete on the empty list returns nothing and changes neither the object
  nor the charts drawn on the placeholder.
\<close>

theorem delete_root_empty_heap:
  "get_heap w = [] \<Longrightarrow> delete_root w = Some (Inr (None, w))"
  by (cases w) (simp add: get_heap_def delete_root_empty)

theorem delete_root_empty_heap_witness:
  "get_heap (init False :: int AnimatedHeap, [([2, 1], [])]) = [] \<and>
   delete_root (init False :: int AnimatedHeap, [([2, 1], [])]) =
     Some (Inr (None, (init False, [([2, 1], [])])))"
proof -
  have e: "get_heap (init False :: int AnimatedHeap, [([2, 1], [])]) = []"
    by (simp add: get_heap_def init_def)
  show ?thesis using e delete_root_empty_heap[OF e] by simp
qed

text \<open>
  C6. One pass of the sift-down at an index \<open>i\<close> with both children in the
  list. The candidate is the left child when \<open>compare\<close> prefers it to the
  parent, else the parent; the right child replaces that candidate only when
  \<open>compare\<close>, which is strict, prefers it. When a child \<open>c\<close> is chosen the
  exchange is performed with it: the loop goes on at \<open>c\<close> from the object whose
  list has the values at \<open>i\<close> and \<open>c\<close> exchanged, the first chart drawn is
  that list with \<open>i\<close> and \<open>c\<close> highlighted, and in the list returned the
  positions before \<open>c\<close> are those of the exchanged list, so position \<open>i\<close>
  holds the value the child had. The child is the right one in the first case
  and the left one when the left child is the candidate and the right one is
  not preferred; when the parent stays the candidate nothing is drawn or
  changed. So two equal children that both precede the parent give an exchange
  with the left child. In every case the list returned is a rearrangement of
  the list given.
\<close>

theorem sift_down_tie_break:
  assumes "2 * i + 2 < length (heap self)"
  shows "let h = heap self; m = is_min self; left = 2 * i + 1; right = 2 * i + 2;
             cand = (if compare m (h ! left) (h ! i) then left else i);
             exch = (\<lambda>c. h[i := h ! c, c := h ! i]);
             exchanged_with = (\<lambda>c h' es.
               heapify_down i (self, plot) =
                 heapify_down c (self\<lparr>heap := exch c\<rparr>, plot @ [(exch c, [i, c])]) \<and>
               es \<noteq> [] \<and> hd es = (exch c, [i, c]) \<and>
               h' ! i = h ! c \<and> (\<forall>k < c. h' ! k = exch c ! k))
         in \<exists>h' es. heapify_down i (self, plot) = Some (Inr (self\<lparr>heap := h'\<rparr>, plot @ es)) \<and>
              length h' = length h \<and> mset h' = mset h \<and>
              (compare m (h ! right) (h ! cand) \<longrightarrow> exchanged_with right h' es) \<and>
              (\<not> compare m (h ! right) (h ! cand) \<and> cand = left \<longrightarrow> exchanged_with left h' es) \<and>
              (\<not> compare m (h ! right) (h ! cand) \<and> cand = i \<longrightarrow> es = [] \<and> h' = h) \<and>
              (h ! left = h ! right \<and> compare m (h ! left) (h ! i) \<longrightarrow> exchanged_with left h' es)"
proof -
  define h where "h = heap self"
  define m where "m = is_min self"
  define left where "left = 2 * i + 1"
  define right where "right = 2 * i + 2"
  define cand where "cand = (if compare m (h ! left) (h ! i) then left else i)"
  define exch where "exch = (\<lambda>c. h[i := h ! c, c := h ! i])"
  define exchanged_with where "exchanged_with = (\<lambda>c h' es.
               heapify_down i (self, plot) =
                 heapify_down c (self\<lparr>heap := exch c\<rparr>, plot @ [(exch c, [i, c])]) \<and>
               es \<noteq> [] \<and> hd es = (exch c, [i, c]) \<and>
               h' ! i = h ! c \<and> (\<forall>k < c. h' ! k = exch c ! k))"
  define j where "j = swap_idx_of m h i"
  have irr: "\<And>x. \<not> compare m x x" by (simp add: compare_def)
  have j: "j = (if compare m (h ! right) (h ! cand) then right else cand)"
    using swap_idx_of_both[OF assms, of m]
    by (simp add: j_def h_def cand_def left_def right_def Let_def)
  have ne: "left \<noteq> i" "right \<noteq> i" by (simp_all add: left_def right_def)
  have ex: "exch j = swap_list h i j" by (simp add: exch_def swap_list_def)
  have step: "heapify_down i (self, plot) =
      heapify_down j (self\<lparr>heap := exch j\<rparr>, plot @ [(exch j, [i, j])])" if "j \<noteq> i"
  proof -
    from that have n: "swap_idx_of (is_min self) (heap self) i \<noteq> i" by (simp add: j_def h_def m_def)
    have "heapify_down i (self, plot) =
        heapify_down j (self\<lparr>heap := swap_list h i j\<rparr>, plot @ [(swap_list h i j, [i, j])])"
      using heapify_down_step[OF n, of plot] unfolding j_def h_def m_def .
    then show ?thesis unfolding ex .
  qed
  obtain h' es where r: "heapify_down i (self, plot) = Some (Inr (self\<lparr>heap := h'\<rparr>, plot @ es))"
     "j = i \<longrightarrow> es = [] \<and> h' = h"
     "j \<noteq> i \<longrightarrow> exchanged_with j h' es"
  proof (cases "j = i")
    case True
    obtain h1 es1 where "heapify_down i (self, plot) = Some (Inr (self\<lparr>heap := h1\<rparr>, plot @ es1))"
        "swap_idx_of (is_min self) (heap self) i = i \<longrightarrow> es1 = [] \<and> h1 = heap self"
      using heapify_down_result[of i self plot] by blast
    then show ?thesis using that[of h1 es1] True by (simp add: j_def h_def m_def)
  next
    case False
    then have n: "swap_idx_of (is_min self) (heap self) i \<noteq> i" by (simp add: j_def h_def m_def)
    obtain h1 es1 where t: "heapify_down i (self, plot) =
           Some (Inr (self\<lparr>heap := h1\<rparr>, plot @ (swap_list h i j, [i, j]) # es1))"
        "h1 ! i = h ! j" "\<forall>k < j. h1 ! k = swap_list h i j ! k"
      using heapify_down_exchange[OF n, of plot] unfolding j_def h_def m_def by blast
    have "exchanged_with j h1 ((swap_list h i j, [i, j]) # es1)"
      unfolding exchanged_with_def using step[OF False] t(2,3) ex by simp
    then show ?thesis using that[of h1 "(swap_list h i j, [i, j]) # es1"] t(1) False by simp
  qed
  have pm: "length h' = length h \<and> mset h' = mset h"
    using heapify_down_permutes[OF r(1)] by (simp add: h_def)
  have c1: "compare m (h ! right) (h ! cand) \<longrightarrow> exchanged_with right h' es"
  proof
    assume "compare m (h ! right) (h ! cand)"
    then have "j = right" using j by simp
    then show "exchanged_with right h' es" using r(3) ne(2) by simp
  qed
  have c2: "\<not> compare m (h ! right) (h ! cand) \<and> cand = left \<longrightarrow> exchanged_with left h' es"
  proof
    assume a: "\<not> compare m (h ! right) (h ! cand) \<and> cand = left"
    from a have n: "\<not> compare m (h ! right) (h ! cand)" and cl: "cand = left" by blast+
    have "j = cand" using j n by simp
    then have "j = left" using cl by simp
    then show "exchanged_with left h' es" using r(3) ne(1) by simp
  qed
  have c3: "\<not> compare m (h ! right) (h ! cand) \<and> cand = i \<longrightarrow> es = [] \<and> h' = h"
    using j r(2) by auto
  have c4: "h ! left = h ! right \<and> compare m (h ! left) (h ! i) \<longrightarrow> exchanged_with left h' es"
  proof
    assume a: "h ! left = h ! right \<and> compare m (h ! left) (h ! i)"
    from a have a1: "h ! left = h ! right" and a2: "compare m (h ! left) (h ! i)" by blast+
    from a2 have "cand = left" by (simp add: cand_def)
    moreover have "\<not> compare m (h ! right) (h ! cand)"
      using irr[of "h ! left"] a1 calculation by simp
    ultimately show "exchanged_with left h' es" using c2 by blast
  qed
  have "\<exists>h' es. heapify_down i (self, plot) = Some (Inr (self\<lparr>heap := h'\<rparr>, plot @ es)) \<and>
              length h' = length h \<and> mset h' = mset h \<and>
              (compare m (h ! right) (h ! cand) \<longrightarrow> exchanged_with right h' es) \<and>
              (\<not> compare m (h ! right) (h ! cand) \<and> cand = left \<longrightarrow> exchanged_with left h' es) \<and>
              (\<not> compare m (h ! right) (h ! cand) \<and> cand = i \<longrightarrow> es = [] \<and> h' = h) \<and>
              (h ! left = h ! right \<and> compare m (h ! left) (h ! i) \<longrightarrow> exchanged_with left h' es)"
    using r(1) pm c1 c2 c3 c4 by blast
  then show ?thesis
    unfolding Let_def h_def m_def left_def right_def cand_def exch_def exchanged_with_def .
qed

theorem sift_down_tie_break_witness:
  "2 * 0 + 2 < length (heap \<lparr>heap = [5, 3, 3 :: int], is_min = True\<rparr>) \<and>
   heapify_down 0 (\<lparr>heap = [5, 3, 3 :: int], is_min = True\<rparr>, []) =
     Some (Inr (\<lparr>heap = [3, 5, 3], is_min = True\<rparr>, [([3, 5, 3], [0, 1])]))"
proof -
  have h: "2 * 0 + 2 < length (heap \<lparr>heap = [5, 3, 3 :: int], is_min = True\<rparr>)" by simp
  have e: "heapify_down (Suc 0) (\<lparr>heap = [3, 5, 3 :: int], is_min = True\<rparr>, [([3, 5, 3], [0, Suc 0])]) =
     Some (Inr (\<lparr>heap = [3, 5, 3], is_min = True\<rparr>, [([3, 5, 3], [0, Suc 0])]))"
    by code_simp
  show ?thesis
    using h e sift_down_tie_break[OF h, of "[]"]
    by (auto simp add: Let_def compare_def)
qed

text \<open>
  C7. A build from a list that is already in heap order for the object's
  polarity draws the initial layout and nothing else, and leaves the list as it
  was given.
\<close>

theorem build_on_heap_exchanges_nothing:
  assumes "heap_order (is_min self) arr"
  shows "build_heap arr (self, plot) = Some (Inr (self\<lparr>heap := arr\<rparr>, plot @ [(arr, [])]))"
proof -
  have "heap_from (is_min (self\<lparr>heap := arr\<rparr>)) 0 (heap (self\<lparr>heap := arr\<rparr>))"
    using assms by (simp add: heap_order_iff)
  from for_each_heapify_down_noop[OF this]
  show ?thesis by (simp add: build_heap_def Let_def)
qed

theorem build_on_heap_exchanges_nothing_witness:
  "heap_order (is_min (init False :: int AnimatedHeap)) [9, 7, 8, 1, 7 :: int] \<and>
   build_heap [9, 7, 8, 1, 7] (init False :: int AnimatedHeap, []) =
     Some (Inr (\<lparr>heap = [9, 7, 8, 1, 7], is_min = False\<rparr>, [([9, 7, 8, 1, 7], [])]))"
proof -
  have h: "heap_order (is_min (init False :: int AnimatedHeap)) [9, 7, 8, 1, 7 :: int]"
    by (simp add: heap_order_def heap_le_def init_def upt_rec nth_Cons')
  show ?thesis
    using h build_on_heap_exchanges_nothing[OF h, of "[]"]
    by (simp add: init_def)
qed

text \<open>
  C8. The scenario of the page's default input: a min-heap built from
  \<open>[10, 20, 15, 30, 40, 1, 6, 55, 90, 87]\<close> is in heap order, ten deletes return
  \<open>1, 6, 10, 15, 20, 30, 40, 55, 87, 90\<close> in this order, and the eleventh returns
  nothing.
\<close>

theorem scenario_min_heap:
  "\<exists>w1 w2. build_heap [10, 20, 15, 30, 40, 1, 6, 55, 90, 87 :: int] (init True, []) = Some (Inr w1) \<and>
     get_heap w1 = [1, 20, 6, 30, 40, 15, 10, 55, 90, 87] \<and>
     heap_order True (get_heap w1) \<and>
     run (replicate 11 DeleteRoot) w1 =
       Some (Inr ([Some 1, Some 6, Some 10, Some 15, Some 20, Some 30, Some 40, Some 55,
                   Some 87, Some 90, None], w2))"
proof -
  let ?w1 = "(\<lparr>heap = [1, 20, 6, 30, 40, 15, 10, 55, 90, 87 :: int], is_min = True\<rparr>,
        [([10, 20, 15, 30, 40, 1, 6, 55, 90, 87], []),
         ([10, 20, 1, 30, 40, 15, 6, 55, 90, 87], [2, 5]),
         ([1, 20, 10, 30, 40, 15, 6, 55, 90, 87], [0, 2]),
         ([1, 20, 6, 30, 40, 15, 10, 55, 90, 87], [2 :: nat, 6])])"
  let ?rs = "[Some 1, Some 6, Some 10, Some 15, Some 20, Some 30, Some 40, Some 55,
                   Some 87, Some 90, None :: int option]"
  have b: "build_heap [10, 20, 15, 30, 40, 1, 6, 55, 90, 87 :: int] (init True, []) = Some (Inr ?w1)"
    by code_simp
  have g: "get_heap ?w1 = [1, 20, 6, 30, 40, 15, 10, 55, 90, 87]"
    by (simp add: get_heap_def)
  have o: "heap_order True (get_heap ?w1)"
    unfolding g by (simp add: heap_order_def heap_le_def upt_rec nth_Cons')
  have "map_option (map_sum id fst) (run (replicate 11 DeleteRoot) ?w1) = Some (Inr ?rs)"
    by code_simp
  then obtain z where z: "run (replicate 11 DeleteRoot) ?w1 = Some z" "map_sum id fst z = Inr ?rs"
    by auto
  then obtain w2 where "z = Inr (?rs, w2)" by (cases z) auto
  then have d: "run (replicate 11 DeleteRoot) ?w1 = Some (Inr (?rs, w2))" using z(1) by simp
  show ?thesis
    using b g o d by blast
qed

theorem scenario_min_heap_witness:
  "\<exists>w1. build_heap [10, 20, 15, 30, 40, 1, 6, 55, 90, 87 :: int] (init True, []) = Some (Inr w1) \<and>
     heap_order True (get_heap w1) \<and>
     (\<exists>w2. run (replicate 10 DeleteRoot @ [DeleteRoot]) w1 =
       Some (Inr (map Some [1, 6, 10, 15, 20, 30, 40, 55, 87, 90] @ [None], w2)))"
proof -
  have "replicate 10 DeleteRoot @ [DeleteRoot :: int operation] = replicate 11 DeleteRoot"
    by (simp add: numeral_eq_Suc)
  then show ?thesis using scenario_min_heap by auto
qed

text \<open>
  C9. No list access of the class is out of range: from any state, a sift-down
  from any index, a build, an insert and a delete return normally, none raises
  \<open>IndexError\<close>; so does a sift-up from an index inside the list (the only
  kind \<^verbatim>\<open>insert\<close> starts) or from index 0.
\<close>

theorem indices_in_range:
  "(\<exists>w'. heapify_down i w = Some (Inr w')) \<and>
   (i < length (get_heap w) \<or> i = 0 \<longrightarrow> (\<exists>w'. heapify_up i w = Some (Inr w'))) \<and>
   (\<exists>w'. build_heap arr w = Some (Inr w')) \<and>
   (\<exists>w'. insert_heap v w = Some (Inr w')) \<and>
   (\<exists>r w'. delete_root w = Some (Inr (r, w')))"
proof (cases w)
  case (Pair self p)
  have "\<exists>w'. heapify_up i w = Some (Inr w')" if "i < length (get_heap w) \<or> i = 0"
  proof (cases "i < length (get_heap w)")
    case True
    then have "i < length (heap self)" using Pair by (simp add: get_heap_def)
    then show ?thesis using heapify_up_props[of i self p] Pair by blast
  next
    case False
    then have "i = 0" using that by simp
    then show ?thesis using heapify_up_root by blast
  qed
  then show ?thesis using operations_return[of i self p arr v] Pair by blast
qed

theorem indices_in_range_witness:
  "(2 < length (get_heap (\<lparr>heap = [4, 2, 7 :: int], is_min = False\<rparr>, [])) \<or> (2::nat) = 0) \<and>
   (\<exists>w'. heapify_down 2 (\<lparr>heap = [4, 2, 7 :: int], is_min = False\<rparr>, []) = Some (Inr w')) \<and>
   (\<exists>w'. heapify_up 2 (\<lparr>heap = [4, 2, 7 :: int], is_min = False\<rparr>, []) = Some (Inr w')) \<and>
   (\<exists>w'. build_heap [3, 9] (\<lparr>heap = [4, 2, 7 :: int], is_min = False\<rparr>, []) = Some (Inr w')) \<and>
   (\<exists>w'. insert_heap 5 (\<lparr>heap = [4, 2, 7 :: int], is_min = False\<rparr>, []) = Some (Inr w')) \<and>
   (\<exists>r w'. delete_root (\<lparr>heap = [4, 2, 7 :: int], is_min = False\<rparr>, []) = Some (Inr (r, w')))"
proof -
  have h: "2 < length (get_heap (\<lparr>heap = [4, 2, 7 :: int], is_min = False\<rparr>, [])) \<or> (2::nat) = 0"
    by (simp add: get_heap_def)
  show ?thesis
    using h indices_in_range[of 2 "(\<lparr>heap = [4, 2, 7 :: int], is_min = False\<rparr>, [])" "[3, 9]" 5]
    by blast
qed

text \<open>
  C10. Both loops end, from any state and any start index, and so do build,
  insert and delete: none of them has the value \<open>None\<close> of a computation that
  runs forever. A sift-up from an index \<open>i\<close> inside the list exchanges at most
  \<open>i\<close> times, each time from an index to a smaller one; a sift-down from
  \<open>i\<close> exchanges at most \<open>length - i\<close> times, each time from an index to a
  larger one below the length.
\<close>

theorem sift_loops_terminate:
  "(\<exists>r. heapify_up i w = Some r) \<and>
   (\<exists>r. heapify_down i w = Some r) \<and>
   (\<exists>r. build_heap arr w = Some r) \<and>
   (\<exists>r. insert_heap v w = Some r) \<and>
   (\<exists>r. delete_root w = Some r) \<and>
   (i < length (get_heap w) \<longrightarrow>
      (\<exists>w' es. heapify_up i w = Some (Inr w') \<and> snd w' = snd w @ es \<and> length es \<le> i \<and>
         (\<forall>e \<in> set es. \<exists>a b. snd e = [a, b] \<and> b < a \<and> a \<le> i))) \<and>
   (\<exists>w' es. heapify_down i w = Some (Inr w') \<and> snd w' = snd w @ es \<and>
      length es \<le> length (get_heap w) - i \<and>
      (\<forall>e \<in> set es. \<exists>a b. snd e = [a, b] \<and> i \<le> a \<and> a < b \<and> b < length (get_heap w)))"
proof (cases w)
  case (Pair self p)
  have up: "\<exists>w' es. heapify_up i w = Some (Inr w') \<and> snd w' = snd w @ es \<and> length es \<le> i \<and>
         (\<forall>e \<in> set es. \<exists>a b. snd e = [a, b] \<and> b < a \<and> a \<le> i)"
    if "i < length (get_heap w)"
  proof -
    have "i < length (heap self)" using that Pair by (simp add: get_heap_def)
    from heapify_up_trace[OF this, of p]
    obtain h' es where "heapify_up i (self, p) = Some (Inr (self\<lparr>heap := h'\<rparr>, p @ es))"
      "length es \<le> i" "\<forall>e \<in> set es. \<exists>a b. snd e = [a, b] \<and> b < a \<and> a \<le> i" by blast
    then show ?thesis using Pair
      by (intro exI[of _ "(self\<lparr>heap := h'\<rparr>, p @ es)"] exI[of _ es]) simp
  qed
  have down: "\<exists>w' es. heapify_down i w = Some (Inr w') \<and> snd w' = snd w @ es \<and>
      length es \<le> length (get_heap w) - i \<and>
      (\<forall>e \<in> set es. \<exists>a b. snd e = [a, b] \<and> i \<le> a \<and> a < b \<and> b < length (get_heap w))"
  proof -
    obtain h' es where "heapify_down i (self, p) = Some (Inr (self\<lparr>heap := h'\<rparr>, p @ es))"
      "length es \<le> length (heap self) - i"
      "\<forall>e \<in> set es. \<exists>a b. snd e = [a, b] \<and> i \<le> a \<and> a < b \<and> b < length (heap self)"
      using heapify_down_trace[of i self p] by blast
    then show ?thesis using Pair
      by (intro exI[of _ "(self\<lparr>heap := h'\<rparr>, p @ es)"] exI[of _ es]) (simp add: get_heap_def)
  qed
  have "\<exists>r. heapify_up i w = Some r"
  proof (cases "i < length (get_heap w)")
    case True
    then show ?thesis using up by blast
  next
    case False
    show ?thesis
    proof (cases "i = 0")
      case True
      then show ?thesis using heapify_up_root by blast
    next
      case nz: False
      have "length (heap self) \<le> i" using False Pair by (simp add: get_heap_def)
      then show ?thesis using heapify_up_out_of_range[of i self p] nz Pair by simp
    qed
  qed
  moreover have "\<exists>r. heapify_down i w = Some r" using down by blast
  moreover have "\<exists>r. build_heap arr w = Some r" "\<exists>r. insert_heap v w = Some r" "\<exists>r. delete_root w = Some r"
    using operations_return[of i self p arr v] Pair by blast+
  ultimately show ?thesis using up down by blast
qed

theorem sift_loops_terminate_witness:
  "2 < length (get_heap (\<lparr>heap = [4, 2, 7 :: int], is_min = False\<rparr>, [])) \<and>
   (\<exists>w' es. heapify_up 2 (\<lparr>heap = [4, 2, 7 :: int], is_min = False\<rparr>, []) = Some (Inr w') \<and>
      snd w' = snd (\<lparr>heap = [4, 2, 7 :: int], is_min = False\<rparr>, []) @ es \<and> length es \<le> 2 \<and>
      (\<forall>e \<in> set es. \<exists>a b. snd e = [a, b] \<and> b < a \<and> a \<le> 2))"
proof -
  have h: "2 < length (get_heap (\<lparr>heap = [4, 2, 7 :: int], is_min = False\<rparr>, []))"
    by (simp add: get_heap_def)
  show ?thesis
    using h sift_loops_terminate[of 2 "(\<lparr>heap = [4, 2, 7 :: int], is_min = False\<rparr>, [])" "[]" 0]
    by blast
qed

end
